theory Spec2Isabelle
  imports Main "HOL-Library.Word"
begin

unbundle bit_operations_syntax

section \<open>Data model (src/App.tsx, as used from ./types)\<close>

text \<open>
  \<open>ProcessStatus\<close> is the string union \<open>'pending' | 'processing' | 'done' | 'error'\<close>.
\<close>

datatype ProcessStatus = Pending | Processing | Done | Error

text \<open>
  A value thrown by the program or by one of its collaborators. \<open>Rejected m\<close> is a
  rejection of a collaborator's promise whose \<open>message\<close> property is \<open>m\<close> (absent for a
  value that is no \<open>Error\<close>); \<open>NoResult n\<close> is the \<open>Error\<close> of line 143 of App.tsx;
  \<open>TypeError\<close> is a property read on \<open>undefined\<close> and \<open>RangeError\<close> a \<open>DataView\<close> read
  outside the buffer.
\<close>

datatype thrown = TypeError | RangeError | NoResult string | Rejected "string option"

text \<open>
  \<open>error.message\<close>. The text of the two errors the engine raises is the engine's own
  (written as V8 prints it); no item ever receives it.
\<close>

fun message :: "thrown \<Rightarrow> string option" where
  "message (Rejected m) = m"
| "message (NoResult n) = Some (''No result for '' @ n @ '' in group response'')"
| "message TypeError = Some ''Cannot read properties of undefined''"
| "message RangeError = Some ''Offset is outside the bounds of the DataView''"

text \<open>
  \<open>ImageFile\<close>: \<open>'h\<close> is \<open>FileSystemFileHandle\<close>, \<open>'e\<close> is the evaluation the grading
  service returns. The field \<open>id\<close> is written \<open>id'\<close> and \<open>type\<close> is \<open>type'\<close>.
\<close>

record ('h, 'e) ImageFile =
  id' :: string
  handle :: 'h
  name :: string
  type' :: string
  status :: ProcessStatus
  evaluation :: "'e option"
  errorMessage :: "string option"
  xmpHandle :: "'h option"

text \<open>One element of \<open>batchCandidates\<close>; \<open>'f\<close> is the browser's \<open>File\<close>.\<close>

record ('h, 'e, 'f) candidate =
  index :: nat
  file' :: "('h, 'e) ImageFile"
  fileObj :: 'f
  timestamp :: int

text \<open>
  The collaborators \<open>processQueue\<close> awaits. Each call may reject, so each returns a sum
  with the thrown value on the left. \<open>saveXMP d n r\<close> stands for
  \<open>saveXMPInDirectory(d, n, generateXMPContent(r))\<close>; \<open>dirHandle\<close> is the directory handle
  the closure of \<open>processQueue\<close> captured.
\<close>

record ('h, 'e, 'f, 'd) collaborators =
  getFile :: "'h \<Rightarrow> thrown + 'f"
  getDateTaken :: "'f \<Rightarrow> thrown + int"
  resizeImage :: "'f \<Rightarrow> thrown + (string \<times> string)"
  evaluateImage :: "string \<Rightarrow> string \<Rightarrow> thrown + 'e"
  evaluateImageGroup :: "(string \<times> string \<times> string) list \<Rightarrow> thrown + (string \<rightharpoonup> 'e)"
  saveXMP :: "'d \<Rightarrow> string \<Rightarrow> 'e \<Rightarrow> thrown + 'h"
  dirHandle :: "'d option"

section \<open>Burst detection (App.tsx, lines 48 to 111)\<close>

text \<open>\<open>Array.prototype.findIndex\<close>, with \<open>None\<close> for \<open>-1\<close>.\<close>

fun findIndex :: "('a \<Rightarrow> bool) \<Rightarrow> 'a list \<Rightarrow> nat option" where
  "findIndex p [] = None"
| "findIndex p (x # xs) =
     (if p x then Some 0 else map_option Suc (findIndex p xs))"

definition MAX_BATCH_SIZE :: nat where
  "MAX_BATCH_SIZE = 4"

text \<open>
  The \<open>while\<close> loop of lines 73 to 108. It returns \<open>batchCandidates\<close> as the loop leaves
  it and the value the surrounding \<open>catch\<close> received, if any: a rejection inside the
  loop leaves through the \<open>catch\<close> of line 109 with the candidates pushed so far.
\<close>

function lookAheadLoop ::
  "('h, 'e, 'f, 'd) collaborators \<Rightarrow> ('h, 'e) ImageFile list \<Rightarrow> nat \<Rightarrow>
   ('h, 'e, 'f) candidate list \<Rightarrow> nat \<Rightarrow> ('h, 'e, 'f) candidate list \<times> thrown option" where
  "lookAheadLoop E currentFiles nextFileIndex batchCandidates lookAhead =
     (if length batchCandidates < MAX_BATCH_SIZE \<and>
         nextFileIndex + lookAhead < length currentFiles
      then
        let candidateIndex = nextFileIndex + lookAhead;
            candidateFile = currentFiles ! candidateIndex
        in if status candidateFile \<noteq> Pending then (batchCandidates, None)
           else case getFile E (handle candidateFile) of
             Inl e \<Rightarrow> (batchCandidates, Some e)
           | Inr candidateFileObj \<Rightarrow>
               (case getDateTaken E candidateFileObj of
                  Inl e \<Rightarrow> (batchCandidates, Some e)
                | Inr candidateTimestamp \<Rightarrow>
                    (case batchCandidates of
                       [] \<Rightarrow> (batchCandidates, Some TypeError)
                     | first # _ \<Rightarrow>
                         let prevTimestamp = timestamp (last batchCandidates);
                             startTimestamp = timestamp first;
                             neighborDelta = \<bar>candidateTimestamp - prevTimestamp\<bar>;
                             totalDelta = \<bar>candidateTimestamp - startTimestamp\<bar>
                         in if neighborDelta < 2000 \<and> totalDelta < 4000
                            then lookAheadLoop E currentFiles nextFileIndex
                                   (batchCandidates @
                                     [\<lparr>index = candidateIndex, file' = candidateFile,
                                       fileObj = candidateFileObj,
                                       timestamp = candidateTimestamp\<rparr>])
                                   (lookAhead + 1)
                            else (batchCandidates, None)))
      else (batchCandidates, None))"
  by pat_completeness auto
termination
  by (relation "measure (\<lambda>(E, currentFiles, nextFileIndex, batchCandidates, lookAhead).
        length currentFiles - (nextFileIndex + lookAhead))") auto

text \<open>
  Lines 55 to 111: the first file, then the look-ahead. A rejection while the first
  file is read leaves \<open>batchCandidates\<close> empty.
\<close>

definition burstDetection ::
  "('h, 'e, 'f, 'd) collaborators \<Rightarrow> ('h, 'e) ImageFile list \<Rightarrow> nat \<Rightarrow>
   ('h, 'e, 'f) candidate list \<times> thrown option" where
  "burstDetection E currentFiles nextFileIndex =
     (if nextFileIndex < length currentFiles then
        case getFile E (handle (currentFiles ! nextFileIndex)) of
          Inl e \<Rightarrow> ([], Some e)
        | Inr firstFileObj \<Rightarrow>
            (case getDateTaken E firstFileObj of
               Inl e \<Rightarrow> ([], Some e)
             | Inr firstTimestamp \<Rightarrow>
                 lookAheadLoop E currentFiles nextFileIndex
                   [\<lparr>index = nextFileIndex, file' = currentFiles ! nextFileIndex,
                     fileObj = firstFileObj, timestamp = firstTimestamp\<rparr>] 1)
      else ([], Some TypeError))"

section \<open>Running a batch (App.tsx, lines 114 to 204)\<close>

text \<open>
  \<open>Promise.all\<close>: the results in order, or a rejection. Where several promises reject
  the program sees the one that settles first; the model takes the first in array
  order.
\<close>

fun promiseAll :: "(thrown + 'a) list \<Rightarrow> thrown + 'a list" where
  "promiseAll [] = Inr []"
| "promiseAll (Inl e # ps) = Inl e"
| "promiseAll (Inr x # ps) =
     (case promiseAll ps of Inl e \<Rightarrow> Inl e | Inr xs \<Rightarrow> Inr (x # xs))"

text \<open>
  Lines 146 to 151 and 181 to 186: \<open>xmpHandle\<close> stays \<open>undefined\<close> without a directory
  handle and when the write throws (the \<open>catch\<close> only warns).
\<close>

definition saveSidecar ::
  "('h, 'e, 'f, 'd) collaborators \<Rightarrow> string \<Rightarrow> 'e \<Rightarrow> 'h option" where
  "saveSidecar E n result =
     (case dirHandle E of
        None \<Rightarrow> None
      | Some d \<Rightarrow> (case saveXMP E d n result of Inl e \<Rightarrow> None | Inr h \<Rightarrow> Some h))"

text \<open>The object of lines 153 to 158.\<close>

record ('h, 'e) update =
  uid :: string
  uevaluation :: 'e
  ustatus :: ProcessStatus
  uxmpHandle :: "'h option"

text \<open>
  What the \<open>try\<close> of line 120 ends with: the resolved updates of the group branch, the
  single result (id, evaluation, sidecar handle), or the value its \<open>catch\<close> receives.
\<close>

datatype ('h, 'e) outcome =
  GroupDone "('h, 'e) update list"
| SingleDone string 'e "'h option"
| Failed thrown

definition prepare ::
  "('h, 'e, 'f, 'd) collaborators \<Rightarrow> ('h, 'e, 'f) candidate \<Rightarrow>
   thrown + (string \<times> string \<times> string)" where
  "prepare E c =
     (case resizeImage E (fileObj c) of
        Inl e \<Rightarrow> Inl e
      | Inr (base64, mimeType) \<Rightarrow> Inr (name (file' c), base64, mimeType))"

definition memberUpdate ::
  "('h, 'e, 'f, 'd) collaborators \<Rightarrow> (string \<rightharpoonup> 'e) \<Rightarrow> ('h, 'e, 'f) candidate \<Rightarrow>
   thrown + ('h, 'e) update" where
  "memberUpdate E groupResults c =
     (case groupResults (name (file' c)) of
        None \<Rightarrow> Inl (NoResult (name (file' c)))
      | Some result \<Rightarrow>
          Inr \<lparr>uid = id' (file' c), uevaluation = result, ustatus = Done,
               uxmpHandle = saveSidecar E (name (file' c)) result\<rparr>)"

definition runBatch ::
  "('h, 'e, 'f, 'd) collaborators \<Rightarrow> ('h, 'e, 'f) candidate list \<Rightarrow> ('h, 'e) outcome" where
  "runBatch E batchCandidates =
     (if length batchCandidates > 1 then
        case promiseAll (map (prepare E) batchCandidates) of
          Inl e \<Rightarrow> Failed e
        | Inr preparedImages \<Rightarrow>
            (case evaluateImageGroup E preparedImages of
               Inl e \<Rightarrow> Failed e
             | Inr groupResults \<Rightarrow>
                 (case promiseAll (map (memberUpdate E groupResults) batchCandidates) of
                    Inl e \<Rightarrow> Failed e
                  | Inr resolvedUpdates \<Rightarrow> GroupDone resolvedUpdates))
      else
        case batchCandidates of
          [] \<Rightarrow> Failed TypeError
        | target # _ \<Rightarrow>
            (case resizeImage E (fileObj target) of
               Inl e \<Rightarrow> Failed e
             | Inr (base64, mimeType) \<Rightarrow>
                 (case evaluateImage E base64 mimeType of
                    Inl e \<Rightarrow> Failed e
                  | Inr ev \<Rightarrow>
                      SingleDone (id' (file' target)) ev
                        (saveSidecar E (name (file' target)) ev))))"

text \<open>\<open>processingIds\<close>, line 115.\<close>

definition processingIds :: "('h, 'e, 'f) candidate list \<Rightarrow> string set" where
  "processingIds batchCandidates = set (map (\<lambda>c. id' (file' c)) batchCandidates)"

text \<open>The state update of lines 116 to 118.\<close>

definition markProcessing ::
  "string set \<Rightarrow> ('h, 'e) ImageFile list \<Rightarrow> ('h, 'e) ImageFile list" where
  "markProcessing ids prev =
     map (\<lambda>f. if id' f \<in> ids then f\<lparr>status := Processing\<rparr> else f) prev"

text \<open>
  Lines 166 to 171: each update replaces the first item with its id by
  \<open>{ ...next[idx], ...u }\<close>, the item with the four properties of the update written
  over its own.
\<close>

definition spread :: "('h, 'e) ImageFile \<Rightarrow> ('h, 'e) update \<Rightarrow> ('h, 'e) ImageFile" where
  "spread f u =
     f\<lparr>id' := uid u, evaluation := Some (uevaluation u), status := ustatus u,
       xmpHandle := uxmpHandle u\<rparr>"

fun applyUpdates ::
  "('h, 'e) update list \<Rightarrow> ('h, 'e) ImageFile list \<Rightarrow> ('h, 'e) ImageFile list" where
  "applyUpdates [] next = next"
| "applyUpdates (u # us) next =
     applyUpdates us
       (case findIndex (\<lambda>f. id' f = uid u) next of
          None \<Rightarrow> next
        | Some idx \<Rightarrow> next[idx := spread (next ! idx) u])"

text \<open>The state updates of lines 164 to 173, 188 to 192 and 196 to 200.\<close>

fun applyOutcome ::
  "string set \<Rightarrow> ('h, 'e) outcome \<Rightarrow> ('h, 'e) ImageFile list \<Rightarrow> ('h, 'e) ImageFile list" where
  "applyOutcome ids (GroupDone resolvedUpdates) prev = applyUpdates resolvedUpdates prev"
| "applyOutcome ids (SingleDone target ev x) prev =
     map (\<lambda>f. if id' f = target
               then f\<lparr>status := Done, evaluation := Some ev, xmpHandle := x\<rparr> else f) prev"
| "applyOutcome ids (Failed e) prev =
     map (\<lambda>f. if id' f \<in> ids
               then f\<lparr>status := Error, errorMessage := message e\<rparr> else f) prev"

section \<open>Ingestion (App.tsx, \<open>processDirectory\<close>, lines 211 to 271)\<close>

text \<open>
  The string operations of lines 226 to 239. \<open>toLowerCase\<close> is modelled on the letters
  A to Z, which is what the tests on the extensions need; other characters are left
  as they are.
\<close>

definition toLowerCaseChar :: "char \<Rightarrow> char" where
  "toLowerCaseChar c =
     (let n = (of_char c :: nat) in if 65 \<le> n \<and> n \<le> 90 then char_of (n + 32) else c)"

definition toLowerCase :: "string \<Rightarrow> string" where
  "toLowerCase s = map toLowerCaseChar s"

definition endsWith :: "string \<Rightarrow> string \<Rightarrow> bool" where
  "endsWith s suffix =
     (length suffix \<le> length s \<and> drop (length s - length suffix) s = suffix)"

text \<open>\<open>String.prototype.lastIndexOf\<close> for one character: \<open>-1\<close> when it does not occur.\<close>

fun lastIndexOf :: "string \<Rightarrow> char \<Rightarrow> int" where
  "lastIndexOf [] c = -1"
| "lastIndexOf (x # xs) c =
     (let r = lastIndexOf xs c
      in if r \<noteq> -1 then r + 1 else if x = c then 0 else -1)"

text \<open>
  \<open>String.prototype.substring\<close>: both arguments are clamped to the string and swapped
  when the first is the larger.
\<close>

definition substring :: "string \<Rightarrow> int \<Rightarrow> int \<Rightarrow> string" where
  "substring s start end' =
     (let n = int (length s);
          a = max 0 (min start n);
          b = max 0 (min end' n);
          lo = nat (min a b);
          hi = nat (max a b)
      in take (hi - lo) (drop lo s))"

text \<open>\<open>entry.name.substring(0, entry.name.lastIndexOf('.'))\<close>, lines 228 and 238.\<close>

definition baseName :: "string \<Rightarrow> string" where
  "baseName n = substring n 0 (lastIndexOf n CHR ''.'')"

text \<open>The test of line 237, on the lower-cased name.\<close>

definition isImageName :: "string \<Rightarrow> bool" where
  "isImageName n =
     (endsWith n ''.jpg'' \<or> endsWith n ''.jpeg'' \<or> endsWith n ''.png'' \<or> endsWith n ''.webp'')"

text \<open>
  An entry of the directory listing, which is also the handle of its file
  (\<open>entry as FileSystemFileHandle\<close>).
\<close>

datatype EntryKind = FileKind | DirectoryKind

record dirEntry =
  kind :: EntryKind
  entryName :: string

text \<open>The first loop, lines 224 to 232: the map from lower-cased base name to sidecar.\<close>

fun collectXmp :: "(string \<rightharpoonup> dirEntry) \<Rightarrow> dirEntry list \<Rightarrow> (string \<rightharpoonup> dirEntry)" where
  "collectXmp xmpHandles [] = xmpHandles"
| "collectXmp xmpHandles (entry # rest) =
     (if kind entry = FileKind \<and> endsWith (toLowerCase (entryName entry)) ''.xmp''
      then collectXmp
             (xmpHandles(toLowerCase (baseName (entryName entry)) \<mapsto> entry)) rest
      else collectXmp xmpHandles rest)"

text \<open>
  The second loop, lines 234 to 263. \<open>parseXMP\<close> is the collaborator of
  ./services/fileSystem; when it rejects, the loop is left through the \<open>catch\<close> of
  line 266.
\<close>

fun collectImages ::
  "(dirEntry \<Rightarrow> thrown + 'e option) \<Rightarrow> (string \<rightharpoonup> dirEntry) \<Rightarrow> dirEntry list \<Rightarrow>
   thrown + (dirEntry, 'e) ImageFile list" where
  "collectImages parseXMP xmpHandles [] = Inr []"
| "collectImages parseXMP xmpHandles (entry # rest) =
     (if kind entry = FileKind \<and> isImageName (toLowerCase (entryName entry)) then
        let xmp = xmpHandles (toLowerCase (baseName (entryName entry)))
        in case (case xmp of None \<Rightarrow> Inr None | Some h \<Rightarrow> parseXMP h) of
             Inl e \<Rightarrow> Inl e
           | Inr parsed \<Rightarrow>
               (case collectImages parseXMP xmpHandles rest of
                  Inl e \<Rightarrow> Inl e
                | Inr imageFiles \<Rightarrow>
                    Inr (\<lparr>id' = entryName entry, handle = entry, name = entryName entry,
                          type' = ''image'',
                          status = (if parsed = None then Pending else Done),
                          evaluation = parsed, errorMessage = None,
                          xmpHandle = xmp\<rparr> # imageFiles))
      else collectImages parseXMP xmpHandles rest)"

text \<open>
  \<open>Array.prototype.sort\<close> with a comparator: the sort is stable, so for a consistent
  comparator it is the stable insertion sort.
\<close>

fun insertBy :: "('a \<Rightarrow> 'a \<Rightarrow> int) \<Rightarrow> 'a \<Rightarrow> 'a list \<Rightarrow> 'a list" where
  "insertBy cmp x [] = [x]"
| "insertBy cmp x (y # ys) =
     (if cmp x y \<le> 0 then x # y # ys else y # insertBy cmp x ys)"

fun sortBy :: "('a \<Rightarrow> 'a \<Rightarrow> int) \<Rightarrow> 'a list \<Rightarrow> 'a list" where
  "sortBy cmp [] = []"
| "sortBy cmp (x # xs) = insertBy cmp x (sortBy cmp xs)"

text \<open>
  Lines 220 to 265: the backlog handed to \<open>setFiles\<close>, or the value the \<open>catch\<close>
  received. \<open>localeCompare\<close> is the engine's comparison of two names.
\<close>

definition scanDirectory ::
  "(dirEntry \<Rightarrow> thrown + 'e option) \<Rightarrow> (string \<Rightarrow> string \<Rightarrow> int) \<Rightarrow> dirEntry list \<Rightarrow>
   thrown + (dirEntry, 'e) ImageFile list" where
  "scanDirectory parseXMP localeCompare entries =
     (case collectImages parseXMP (collectXmp Map.empty entries) entries of
        Inl e \<Rightarrow> Inl e
      | Inr imageFiles \<Rightarrow> Inr (sortBy (\<lambda>a b. localeCompare (name a) (name b)) imageFiles))"

section \<open>The scheduler as a transition system (App.tsx, lines 15 to 37, 43 to 271)\<close>

text \<open>
  An activation of \<open>processQueue\<close> that has passed line 52 and is suspended at an
  \<open>await\<close>: either inside the burst detection, holding the snapshot \<open>currentFiles\<close> and
  \<open>nextFileIndex\<close>, or inside the \<open>try\<close> of line 120, holding \<open>batchCandidates\<close>.
\<close>

datatype ('h, 'e, 'f) activation =
  Detecting "('h, 'e) ImageFile list" nat
| Grading "('h, 'e, 'f) candidate list"

text \<open>
  The state of the component the scheduler reads and writes: the React state \<open>files\<close>,
  \<open>isProcessing\<close>, \<open>loadingFiles\<close> and the directory handle (\<open>currentDir\<close>), the refs
  \<open>filesRef\<close>, \<open>isProcessingRef\<close> and \<open>processingRef\<close>, the suspended activations and
  the delays of the timeouts set at line 203 that have not fired yet.
\<close>

record ('h, 'e, 'f, 'd) AppState =
  currentDir :: "'d option"
  files :: "('h, 'e) ImageFile list"
  loadingFiles :: bool
  isProcessing :: bool
  filesRef :: "('h, 'e) ImageFile list"
  isProcessingRef :: bool
  processingRef :: bool
  inFlight :: "('h, 'e, 'f) activation list"
  timeouts :: "nat list"

definition initialState :: "('h, 'e, 'f, 'd) AppState" where
  "initialState =
     \<lparr>currentDir = None, files = [], loadingFiles = False, isProcessing = True,
      filesRef = [], isProcessingRef = True, processingRef = False, inFlight = [],
      timeouts = []\<rparr>"

text \<open>
  Lines 46 to 52, the part of \<open>processQueue\<close> that runs before its first \<open>await\<close>.
\<close>

definition processQueue_enter :: "('h, 'e, 'f, 'd) AppState \<Rightarrow> ('h, 'e, 'f, 'd) AppState" where
  "processQueue_enter s =
     (if processingRef s \<or> \<not> isProcessingRef s then s
      else let currentFiles = filesRef s
           in case findIndex (\<lambda>f. status f = Pending) currentFiles of
                None \<Rightarrow> s
              | Some nextFileIndex \<Rightarrow>
                  s\<lparr>processingRef := True,
                    inFlight := inFlight s @ [Detecting currentFiles nextFileIndex]\<rparr>)"

text \<open>
  Lines 57 to 118 for the activation at position \<open>k\<close>: the burst detection with the
  collaborators as they answer now, then the items of the batch marked as processing.
\<close>

definition processQueue_detect ::
  "('h, 'e, 'f, 'd) collaborators \<Rightarrow> nat \<Rightarrow> ('h, 'e, 'f, 'd) AppState \<Rightarrow>
   ('h, 'e, 'f, 'd) AppState" where
  "processQueue_detect E k s =
     (if k < length (inFlight s) then
        case inFlight s ! k of
          Detecting currentFiles nextFileIndex \<Rightarrow>
            let batchCandidates = fst (burstDetection E currentFiles nextFileIndex)
            in s\<lparr>files := markProcessing (processingIds batchCandidates) (files s),
                 inFlight := (inFlight s)[k := Grading batchCandidates]\<rparr>
        | Grading batchCandidates \<Rightarrow> s
      else s)"

text \<open>
  Lines 120 to 204 for the activation at position \<open>k\<close>: the outcome of the batch is
  written to the items, and \<open>finally\<close> clears the guard and sets the timeout.
\<close>

definition processQueue_finish ::
  "('h, 'e, 'f, 'd) collaborators \<Rightarrow> nat \<Rightarrow> ('h, 'e, 'f, 'd) AppState \<Rightarrow>
   ('h, 'e, 'f, 'd) AppState" where
  "processQueue_finish E k s =
     (if k < length (inFlight s) then
        case inFlight s ! k of
          Detecting currentFiles nextFileIndex \<Rightarrow> s
        | Grading batchCandidates \<Rightarrow>
            s\<lparr>files := applyOutcome (processingIds batchCandidates)
                         (runBatch E batchCandidates) (files s),
              processingRef := False,
              inFlight := take k (inFlight s) @ drop (Suc k) (inFlight s),
              timeouts := timeouts s @ [500]\<rparr>
      else s)"

text \<open>Lines 212 to 217, the part of \<open>processDirectory\<close> before its first \<open>await\<close>.\<close>

definition processDirectory_enter ::
  "'d \<Rightarrow> ('h, 'e, 'f, 'd) AppState \<Rightarrow> ('h, 'e, 'f, 'd) AppState" where
  "processDirectory_enter h s = s\<lparr>currentDir := Some h, loadingFiles := True, files := []\<rparr>"

text \<open>Lines 220 to 270, with the listing of the directory as it is read.\<close>

definition processDirectory_finish ::
  "(dirEntry \<Rightarrow> thrown + 'e option) \<Rightarrow> (string \<Rightarrow> string \<Rightarrow> int) \<Rightarrow> dirEntry list \<Rightarrow>
   (dirEntry, 'e, 'f, 'd) AppState \<Rightarrow> (dirEntry, 'e, 'f, 'd) AppState" where
  "processDirectory_finish parseXMP localeCompare entries s =
     (case scanDirectory parseXMP localeCompare entries of
        Inl e \<Rightarrow> s\<lparr>loadingFiles := False\<rparr>
      | Inr imageFiles \<Rightarrow> s\<lparr>files := imageFiles, loadingFiles := False\<rparr>)"

text \<open>
  What can happen between two turns of the event loop: the interval of line 207 or a
  timeout of line 203 calls \<open>processQueue\<close>; a suspended activation goes on; React
  renders and runs the effects of lines 31 to 37; the operator toggles the pause
  (line 462), opens a folder, or deletes a file (line 384).
\<close>

datatype ('e, 'f, 'd) event =
  IntervalTick
| TimeoutTick
| DetectionDone nat "(dirEntry, 'e, 'f, 'd) collaborators"
| BatchDone nat "(dirEntry, 'e, 'f, 'd) collaborators"
| Render
| TogglePause
| OpenFolder 'd
| FolderScanned "dirEntry \<Rightarrow> thrown + 'e option" "string \<Rightarrow> string \<Rightarrow> int" "dirEntry list"
| DeleteFile string

fun fire ::
  "('e, 'f, 'd) event \<Rightarrow> (dirEntry, 'e, 'f, 'd) AppState \<Rightarrow> (dirEntry, 'e, 'f, 'd) AppState" where
  "fire IntervalTick s = processQueue_enter s"
| "fire TimeoutTick s =
     (case timeouts s of [] \<Rightarrow> s | t # ts \<Rightarrow> processQueue_enter (s\<lparr>timeouts := ts\<rparr>))"
| "fire (DetectionDone k E) s = processQueue_detect E k s"
| "fire (BatchDone k E) s = processQueue_finish E k s"
| "fire Render s = s\<lparr>filesRef := files s, isProcessingRef := isProcessing s\<rparr>"
| "fire TogglePause s = s\<lparr>isProcessing := \<not> isProcessing s\<rparr>"
| "fire (OpenFolder h) s = processDirectory_enter h s"
| "fire (FolderScanned parseXMP localeCompare entries) s =
     processDirectory_finish parseXMP localeCompare entries s"
| "fire (DeleteFile i) s = s\<lparr>files := filter (\<lambda>f. id' f \<noteq> i) (files s)\<rparr>"

text \<open>The state after a sequence of events, from a given state.\<close>

fun run ::
  "('e, 'f, 'd) event list \<Rightarrow> (dirEntry, 'e, 'f, 'd) AppState \<Rightarrow> (dirEntry, 'e, 'f, 'd) AppState" where
  "run [] s = s"
| "run (ev # evs) s = run evs (fire ev s)"

section \<open>The timestamp extractor (\<open>getDateTaken\<close>, services/imageProcessing)\<close>

text \<open>
  A \<open>DataView\<close> over the bytes read. A read that does not fit the buffer throws a
  \<open>RangeError\<close>; the flag of the two wide reads is \<open>littleEndian\<close>.
\<close>

type_synonym DataView = "8 word list"

definition getUint8 :: "DataView \<Rightarrow> nat \<Rightarrow> thrown + nat" where
  "getUint8 view i = (if i + 1 \<le> length view then Inr (unat (view ! i)) else Inl RangeError)"

definition getUint16 :: "DataView \<Rightarrow> nat \<Rightarrow> bool \<Rightarrow> thrown + nat" where
  "getUint16 view i littleEndian =
     (if i + 2 \<le> length view then
        let b0 = unat (view ! i); b1 = unat (view ! (i + 1))
        in Inr (if littleEndian then b0 + 256 * b1 else 256 * b0 + b1)
      else Inl RangeError)"

definition getUint32 :: "DataView \<Rightarrow> nat \<Rightarrow> bool \<Rightarrow> thrown + nat" where
  "getUint32 view i littleEndian =
     (if i + 4 \<le> length view then
        let b0 = unat (view ! i); b1 = unat (view ! (i + 1));
            b2 = unat (view ! (i + 2)); b3 = unat (view ! (i + 3))
        in Inr (if littleEndian
                then b0 + 256 * b1 + 65536 * b2 + 16777216 * b3
                else 16777216 * b0 + 65536 * b1 + 256 * b2 + b3)
      else Inl RangeError)"

text \<open>
  Lines 122 to 125: \<open>n\<close> characters from \<open>stringOffset\<close>, each
  \<open>String.fromCharCode\<close> of one byte.
\<close>

fun readChars :: "DataView \<Rightarrow> nat \<Rightarrow> nat \<Rightarrow> thrown + string" where
  "readChars view stringOffset 0 = Inr []"
| "readChars view stringOffset (Suc n) =
     (case getUint8 view stringOffset of
        Inl e \<Rightarrow> Inl e
      | Inr b \<Rightarrow>
          (case readChars view (stringOffset + 1) n of
             Inl e \<Rightarrow> Inl e
           | Inr cs \<Rightarrow> Inr (char_of b # cs)))"

definition isDigit :: "char \<Rightarrow> bool" where
  "isDigit c = (c \<in> set ''0123456789'')"

text \<open>
  Line 129: \<open>dateString.replace(/^(\d{4}):(\d{2}):(\d{2})/, '$1/$2/$3')\<close>. A string
  the expression does not match is returned as it is.
\<close>

definition formatDate :: "string \<Rightarrow> string" where
  "formatDate dateString =
     (if 10 \<le> length dateString \<and>
         list_all isDigit (take 4 dateString) \<and> dateString ! 4 = CHR '':'' \<and>
         list_all isDigit (take 2 (drop 5 dateString)) \<and> dateString ! 7 = CHR '':'' \<and>
         list_all isDigit (take 2 (drop 8 dateString))
      then take 4 dateString @ ''/'' @ take 2 (drop 5 dateString) @ ''/'' @
           drop 8 dateString
      else dateString)"

text \<open>
  The body of the \<open>for\<close> loop, lines 112 to 136, for entry \<open>i\<close>. \<open>parseDate s\<close> is
  \<open>new Date(s).getTime()\<close>, with \<open>None\<close> for \<open>NaN\<close>; it is the engine's and depends on the
  time zone. The result is \<open>Inr (Some t)\<close> when line 133 resolves with \<open>t\<close>, \<open>Inr None\<close>
  when the loop goes on and \<open>Inl e\<close> when a read throws.
\<close>

definition entryResult ::
  "(string \<Rightarrow> int option) \<Rightarrow> DataView \<Rightarrow> nat \<Rightarrow> bool \<Rightarrow> nat \<Rightarrow> nat \<Rightarrow> thrown + int option" where
  "entryResult parseDate view tiffStart littleEndian dirStart i =
     (let entryOffset = dirStart + 2 + i * 12
      in case getUint16 view entryOffset littleEndian of
           Inl e \<Rightarrow> Inl e
         | Inr tag \<Rightarrow>
             if tag = 0x9003 then
               (case getUint32 view (entryOffset + 8) littleEndian of
                  Inl e \<Rightarrow> Inl e
                | Inr valueOffset \<Rightarrow>
                    (let stringOffset = tiffStart + valueOffset
                     in case readChars view stringOffset 19 of
                          Inl e \<Rightarrow> Inl e
                        | Inr dateString \<Rightarrow> Inr (parseDate (formatDate dateString))))
             else Inr None)"

text \<open>
  The \<open>for\<close> loop of lines 111 to 137 from entry \<open>i\<close> on: \<open>Inr None\<close> when the loop
  ends without a timestamp.
\<close>

function walkEntries ::
  "(string \<Rightarrow> int option) \<Rightarrow> DataView \<Rightarrow> nat \<Rightarrow> bool \<Rightarrow> nat \<Rightarrow> nat \<Rightarrow> nat \<Rightarrow>
   thrown + int option" where
  "walkEntries parseDate view tiffStart littleEndian dirStart entries i =
     (if i < entries then
        (case entryResult parseDate view tiffStart littleEndian dirStart i of
           Inl e \<Rightarrow> Inl e
         | Inr (Some t) \<Rightarrow> Inr (Some t)
         | Inr None \<Rightarrow>
             walkEntries parseDate view tiffStart littleEndian dirStart entries (i + 1))
      else Inr None)"
  by pat_completeness auto
termination
  by (relation "measure (\<lambda>(parseDate, view, tiffStart, littleEndian, dirStart, entries, i).
        entries - i)") auto

text \<open>
  The \<open>while\<close> loop of lines 83 to 147 from \<open>offset\<close> on. \<open>Inr (Some t)\<close>: resolved with
  the timestamp \<open>t\<close> (line 133); \<open>Inr None\<close>: resolved with \<open>file.lastModified\<close> (lines
  98, 104 and 148); \<open>Inl e\<close>: \<open>e\<close> was thrown.
\<close>

function scanSegments ::
  "(string \<Rightarrow> int option) \<Rightarrow> DataView \<Rightarrow> nat \<Rightarrow> thrown + int option" where
  "scanSegments parseDate view offset0 =
     (if offset0 < length view then
        (case getUint16 view offset0 False of
           Inl e \<Rightarrow> Inl e
         | Inr marker \<Rightarrow>
            (let offset = offset0 + 2
             in if marker = 0xFFE1 then
                  (case getUint16 view offset False of
                     Inl e \<Rightarrow> Inl e
                   | Inr app1Length \<Rightarrow>
                      (case getUint32 view (offset + 2) False of
                         Inl e \<Rightarrow> Inl e
                       | Inr signature \<Rightarrow>
                          if signature = 0x45786966 then
                            (let tiffStart = offset + 8
                             in (case getUint16 view tiffStart False of
                                   Inl e \<Rightarrow> Inl e
                                 | Inr byteOrder \<Rightarrow>
                                    (let littleEndian = (byteOrder = 0x4949)
                                     in (case getUint16 view (tiffStart + 2) littleEndian of
                                           Inl e \<Rightarrow> Inl e
                                         | Inr magic \<Rightarrow>
                                            if magic \<noteq> 0x002A then Inr None
                                            else
                                              (case getUint32 view (tiffStart + 4) littleEndian of
                                                 Inl e \<Rightarrow> Inl e
                                               | Inr firstIFDOffset \<Rightarrow>
                                                  if firstIFDOffset < 0x00000008 then Inr None
                                                  else
                                                    (let dirStart = tiffStart + firstIFDOffset
                                                     in (case getUint16 view dirStart littleEndian of
                                                           Inl e \<Rightarrow> Inl e
                                                         | Inr entries \<Rightarrow>
                                                            (case walkEntries parseDate view tiffStart
                                                                    littleEndian dirStart entries 0 of
                                                               Inl e \<Rightarrow> Inl e
                                                             | Inr (Some t) \<Rightarrow> Inr (Some t)
                                                             | Inr None \<Rightarrow>
                                                                 scanSegments parseDate view
                                                                   (offset + app1Length)))))))))
                          else scanSegments parseDate view (offset + app1Length)))
                else if marker AND 0xFF00 \<noteq> 0xFF00 then Inr None
                else
                  (case getUint16 view offset False of
                     Inl e \<Rightarrow> Inl e
                   | Inr segmentLength \<Rightarrow>
                       scanSegments parseDate view (offset + segmentLength))))
      else Inr None)"
  by pat_completeness auto
termination
  by (relation "measure (\<lambda>(parseDate, view, offset0). length view - offset0)") auto

text \<open>Lines 67 to 148: the body of the \<open>try\<close> of \<open>reader.onload\<close>.\<close>

definition parseExif :: "(string \<Rightarrow> int option) \<Rightarrow> DataView \<Rightarrow> thrown + int option" where
  "parseExif parseDate view =
     (case getUint16 view 0 False of
        Inl e \<Rightarrow> Inl e
      | Inr soi \<Rightarrow> if soi \<noteq> 0xFFD8 then Inr None else scanSegments parseDate view 2)"

text \<open>
  The browser's \<open>File\<close>: its \<open>type\<close>, its \<open>lastModified\<close> and its bytes, \<open>None\<close> when the
  \<open>FileReader\<close> fails to read them.
\<close>

record File =
  fileType :: string
  lastModified :: int
  content :: "8 word list option"

text \<open>
  \<open>getDateTaken\<close>, lines 52 to 157: the value the promise resolves with. The \<open>catch\<close> of
  line 149 and \<open>reader.onerror\<close> resolve with \<open>file.lastModified\<close>; only the first 65536
  bytes are read (\<open>file.slice(0, 65536)\<close>).
\<close>

definition getDateTaken' :: "(string \<Rightarrow> int option) \<Rightarrow> File \<Rightarrow> int" where
  "getDateTaken' parseDate f =
     (if fileType f \<noteq> ''image/jpeg'' \<and> fileType f \<noteq> ''image/jpg'' then lastModified f
      else case content f of
             None \<Rightarrow> lastModified f
           | Some bytes \<Rightarrow>
               (case parseExif parseDate (take 65536 bytes) of
                  Inl err \<Rightarrow> lastModified f
                | Inr None \<Rightarrow> lastModified f
                | Inr (Some t) \<Rightarrow> t))"

section \<open>Example inputs\<close>

text \<open>
  A backlog of four pending images, read as PNG files whose capture time is their
  \<open>lastModified\<close>: A at 1000, B at 1500, C at 3200 and D at 7000.
\<close>

definition exampleItem :: "string \<Rightarrow> ProcessStatus \<Rightarrow> (dirEntry, bool) ImageFile" where
  "exampleItem n st =
     \<lparr>id' = n, handle = \<lparr>kind = FileKind, entryName = n\<rparr>, name = n, type' = ''image'',
      status = st, evaluation = None, errorMessage = None, xmpHandle = None\<rparr>"

definition exampleBacklog :: "(dirEntry, bool) ImageFile list" where
  "exampleBacklog =
     [exampleItem ''A.png'' Pending, exampleItem ''B.png'' Pending,
      exampleItem ''C.png'' Pending, exampleItem ''D.png'' Pending]"

definition exampleTimes :: "string \<rightharpoonup> int" where
  "exampleTimes =
     [''A.png'' \<mapsto> 1000, ''B.png'' \<mapsto> 1500, ''C.png'' \<mapsto> 3200, ''D.png'' \<mapsto> 7000]"

definition exampleGetFile :: "dirEntry \<Rightarrow> thrown + File" where
  "exampleGetFile h =
     (case exampleTimes (entryName h) of
        None \<Rightarrow> Inl (Rejected (Some ''NotFoundError''))
      | Some t \<Rightarrow> Inr \<lparr>fileType = ''image/png'', lastModified = t, content = None\<rparr>)"

text \<open>
  Collaborators that grade every image as worth keeping and whose sidecar write always
  fails.
\<close>

definition exampleCollaborators :: "(dirEntry, bool, File, unit) collaborators" where
  "exampleCollaborators =
     \<lparr>getFile = exampleGetFile,
      getDateTaken = (\<lambda>f. Inr (getDateTaken' (\<lambda>s. None) f)),
      resizeImage = (\<lambda>f. Inr (''base64'', ''image/jpeg'')),
      evaluateImage = (\<lambda>b m. Inr True),
      evaluateImageGroup = (\<lambda>images. Inr (map_of (map (\<lambda>(n, b, m). (n, True)) images))),
      saveXMP = (\<lambda>d n r. Inl (Rejected (Some ''write failed''))),
      dirHandle = Some ()\<rparr>"

definition exampleCandidate :: "nat \<Rightarrow> string \<Rightarrow> int \<Rightarrow> (dirEntry, bool, File) candidate" where
  "exampleCandidate i n t =
     \<lparr>index = i, file' = exampleItem n Pending,
      fileObj = \<lparr>fileType = ''image/png'', lastModified = t, content = None\<rparr>,
      timestamp = t\<rparr>"

text \<open>
  The burst of A and B in flight: both are marked as processing. A grading service
  whose group response holds a result for A only.
\<close>

definition exampleBatch :: "(dirEntry, bool, File) candidate list" where
  "exampleBatch = [exampleCandidate 0 ''A.png'' 1000, exampleCandidate 1 ''B.png'' 1500]"

definition examplePrev :: "(dirEntry, bool) ImageFile list" where
  "examplePrev =
     [exampleItem ''A.png'' Processing, exampleItem ''B.png'' Processing,
      exampleItem ''C.png'' Pending, exampleItem ''D.png'' Pending]"

definition exampleOmitting :: "(dirEntry, bool, File, unit) collaborators" where
  "exampleOmitting =
     exampleCollaborators\<lparr>evaluateImageGroup := (\<lambda>images. Inr [''A.png'' \<mapsto> True])\<rparr>"

text \<open>
  A folder with two images and a text file, opened and scanned, then a render and a
  tick of the interval: the state with one activation in flight. The comparison of
  names by code units stands for \<open>localeCompare\<close>.
\<close>

fun compareCodeUnits :: "string \<Rightarrow> string \<Rightarrow> int" where
  "compareCodeUnits [] [] = 0"
| "compareCodeUnits [] (y # ys) = -1"
| "compareCodeUnits (x # xs) [] = 1"
| "compareCodeUnits (x # xs) (y # ys) =
     (if (of_char x :: nat) < of_char y then -1
      else if (of_char y :: nat) < of_char x then 1
      else compareCodeUnits xs ys)"

definition exampleEntries :: "dirEntry list" where
  "exampleEntries =
     [\<lparr>kind = FileKind, entryName = ''B.png''\<rparr>, \<lparr>kind = FileKind, entryName = ''A.png''\<rparr>,
      \<lparr>kind = FileKind, entryName = ''notes.txt''\<rparr>]"

definition exampleEvents :: "(bool, File, unit) event list" where
  "exampleEvents =
     [OpenFolder (), FolderScanned (\<lambda>h. Inr None) compareCodeUnits exampleEntries, Render,
      IntervalTick]"

definition exampleInFlight :: "(dirEntry, bool, File, unit) AppState" where
  "exampleInFlight = run exampleEvents initialState"

text \<open>Collaborators for which no file can be read.\<close>

definition exampleUnreadable :: "(dirEntry, bool, File, unit) collaborators" where
  "exampleUnreadable =
     exampleCollaborators\<lparr>getFile := (\<lambda>h. Inl (Rejected (Some ''NotFoundError'')))\<rparr>"

text \<open>A folder with two images of one base name and no sidecar.\<close>

definition exampleNoSidecar :: "dirEntry \<Rightarrow> thrown + bool option" where
  "exampleNoSidecar h = Inr None"

definition exampleSameBase :: "dirEntry list" where
  "exampleSameBase =
     [\<lparr>kind = FileKind, entryName = ''a.png''\<rparr>, \<lparr>kind = FileKind, entryName = ''a.jpg''\<rparr>]"

text \<open>
  A date parser that knows one date, as the engine reads it in the time zone UTC, and
  takes every other string for invalid.
\<close>

definition exampleParseDate :: "string \<Rightarrow> int option" where
  "exampleParseDate s = (if s = ''2023/10/25 14:30:00'' then Some 1698244200000 else None)"

text \<open>
  A JPEG file of 92 bytes: the start-of-image marker, an APP1 segment with the Exif
  signature and a big-endian TIFF header, and a first directory of two entries with
  the tag 0x9003. The first points to the string of blanks and colons that Exif
  writes for an unknown date, the second to 2023:10:25 14:30:00.
\<close>

definition exampleTwoDatesBytes :: "8 word list" where
  "exampleTwoDatesBytes =
     [0xFF, 0xD8, 0xFF, 0xE1, 0x00, 0x56, 0x45, 0x78, 0x69, 0x66, 0x00, 0x00,
      0x4D, 0x4D, 0x00, 0x2A, 0x00, 0x00, 0x00, 0x08,
      0x00, 0x02,
      0x90, 0x03, 0x00, 0x02, 0x00, 0x00, 0x00, 0x14, 0x00, 0x00, 0x00, 0x26,
      0x90, 0x03, 0x00, 0x02, 0x00, 0x00, 0x00, 0x14, 0x00, 0x00, 0x00, 0x3A,
      0x00, 0x00, 0x00, 0x00,
      0x20, 0x20, 0x20, 0x20, 0x3A, 0x20, 0x20, 0x3A, 0x20, 0x20, 0x20, 0x20, 0x20, 0x3A,
      0x20, 0x20, 0x3A, 0x20, 0x20, 0x00,
      0x32, 0x30, 0x32, 0x33, 0x3A, 0x31, 0x30, 0x3A, 0x32, 0x35, 0x20, 0x31, 0x34, 0x3A,
      0x33, 0x30, 0x3A, 0x30, 0x30, 0x00,
      0xFF, 0xD9]"

definition exampleTwoDates :: File where
  "exampleTwoDates =
     \<lparr>fileType = ''image/jpeg'', lastModified = 5, content = Some exampleTwoDatesBytes\<rparr>"

text \<open>
  A JPEG file whose APP1 segment declares 65534 bytes and whose first directory starts
  at byte 65530: the entry with the tag 0x9003 begins inside the first 65536 bytes,
  its value offset and the date lie beyond them.
\<close>

definition exampleBeyondCutoffBytes :: "8 word list" where
  "exampleBeyondCutoffBytes =
     [0xFF, 0xD8, 0xFF, 0xE1, 0xFF, 0xFE, 0x45, 0x78, 0x69, 0x66, 0x00, 0x00,
      0x4D, 0x4D, 0x00, 0x2A, 0x00, 0x00, 0xFF, 0xEE] @
     replicate 65510 0x00 @
     [0x00, 0x01,
      0x90, 0x03, 0x00, 0x02, 0x00, 0x00, 0x00, 0x14, 0x00, 0x01, 0x00, 0x00,
      0x00, 0x00, 0x00, 0x00,
      0x32, 0x30, 0x32, 0x33, 0x3A, 0x31, 0x30, 0x3A, 0x32, 0x35, 0x20, 0x31, 0x34, 0x3A,
      0x33, 0x30, 0x3A, 0x30, 0x30, 0x00]"

definition exampleBeyondCutoff :: File where
  "exampleBeyondCutoff =
     \<lparr>fileType = ''image/jpeg'', lastModified = 5,
      content = Some exampleBeyondCutoffBytes\<rparr>"

section \<open>Auxiliary definitions\<close>

text \<open>
  The invariant of the look-ahead loop: the batch holds at most \<open>MAX_BATCH_SIZE\<close>
  candidates, which are the pending items of the snapshot from \<open>nextFileIndex\<close> on, in
  order and without a gap.
\<close>

definition runOf ::
  "('h, 'e) ImageFile list \<Rightarrow> nat \<Rightarrow> ('h, 'e, 'f) candidate list \<Rightarrow> bool" where
  "runOf currentFiles nextFileIndex batch =
     (length batch \<le> MAX_BATCH_SIZE \<and>
      nextFileIndex + length batch \<le> length currentFiles \<and>
      map index batch = [nextFileIndex ..< nextFileIndex + length batch] \<and>
      map file' batch = take (length batch) (drop nextFileIndex currentFiles) \<and>
      list_all (\<lambda>c. status (file' c) = Pending) batch)"

text \<open>An item without its sidecar reference, to compare everything else.\<close>

definition clearX :: "('h, 'e) ImageFile \<Rightarrow> ('h, 'e) ImageFile" where
  "clearX f = f\<lparr>xmpHandle := None\<rparr>"

text \<open>Two updates, and two outcomes, that differ at most in sidecar references.\<close>

definition sameButSidecar :: "('h, 'e) update \<Rightarrow> ('h, 'e) update \<Rightarrow> bool" where
  "sameButSidecar u v =
     (uid u = uid v \<and> uevaluation u = uevaluation v \<and> ustatus u = ustatus v)"

definition sameOutcome :: "('h, 'e) outcome \<Rightarrow> ('h, 'e) outcome \<Rightarrow> bool" where
  "sameOutcome a b =
     (case (a, b) of
        (GroupDone us, GroupDone vs) \<Rightarrow> list_all2 sameButSidecar us vs
      | (SingleDone i ev x, SingleDone j ew y) \<Rightarrow> i = j \<and> ev = ew
      | (Failed e, Failed e') \<Rightarrow> e = e'
      | _ \<Rightarrow> False)"

text \<open>The update of a member whose result is in the group response \<open>g\<close>.\<close>

definition groupUpdate ::
  "('h, 'e, 'f, 'd) collaborators \<Rightarrow> (string \<rightharpoonup> 'e) \<Rightarrow> ('h, 'e, 'f) candidate \<Rightarrow>
   ('h, 'e) update" where
  "groupUpdate E g c =
     \<lparr>uid = id' (file' c), uevaluation = the (g (name (file' c))), ustatus = Done,
      uxmpHandle = saveSidecar E (name (file' c)) (the (g (name (file' c))))\<rparr>"

text \<open>
  The single-flight invariant: at most one activation is suspended, and the guard is
  set exactly while there is one.
\<close>

definition singleFlight :: "('h, 'e, 'f, 'd) AppState \<Rightarrow> bool" where
  "singleFlight s = (length (inFlight s) \<le> 1 \<and> (processingRef s \<longleftrightarrow> inFlight s \<noteq> []))"

text \<open>The entries the second loop of \<open>processDirectory\<close> turns into items (line 237).\<close>

definition isImageEntry :: "dirEntry \<Rightarrow> bool" where
  "isImageEntry entry = (kind entry = FileKind \<and> isImageName (toLowerCase (entryName entry)))"

text \<open>The base file names of a backlog: each name with its extension removed.\<close>

definition baseNames :: "('h, 'e) ImageFile list \<Rightarrow> string list" where
  "baseNames backlog = map (\<lambda>f. baseName (name f)) backlog"

section \<open>Properties of the burst detection\<close>

declare lookAheadLoop.simps [simp del]

lemmas example_defs =
  exampleItem_def exampleBacklog_def exampleTimes_def exampleGetFile_def
  exampleCollaborators_def exampleCandidate_def getDateTaken'_def MAX_BATCH_SIZE_def

lemma findIndex_Some:
  "findIndex p xs = Some n \<Longrightarrow> n < length xs \<and> p (xs ! n) \<and> (\<forall>j<n. \<not> p (xs ! j))"
proof (induction xs arbitrary: n)
  case Nil
  then show ?case by simp
next
  case (Cons x xs)
  show ?case
  proof (cases "p x")
    case True
    with Cons.prems show ?thesis by simp
  next
    case False
    with Cons.prems obtain m where m: "findIndex p xs = Some m" "n = Suc m"
      by auto
    from Cons.IH [OF m(1)] False m(2) show ?thesis
      by (auto simp: nth_Cons split: nat.splits)
  qed
qed

lemma findIndex_None: "findIndex p xs = None \<Longrightarrow> \<forall>x\<in>set xs. \<not> p x"
  by (induction xs) (auto split: if_splits)

lemma lookAheadLoop_push:
  assumes "length batch < MAX_BATCH_SIZE" "n + la < length cf"
    "status (cf ! (n + la)) = Pending"
    "getFile E (handle (cf ! (n + la))) = Inr fo" "getDateTaken E fo = Inr t"
    "batch \<noteq> []"
  shows "lookAheadLoop E cf n batch la =
     (if \<bar>t - timestamp (last batch)\<bar> < 2000 \<and> \<bar>t - timestamp (hd batch)\<bar> < 4000
      then lookAheadLoop E cf n
         (batch @ [\<lparr>index = n + la, file' = cf ! (n + la), fileObj = fo, timestamp = t\<rparr>])
         (la + 1)
      else (batch, None))"
  using assms by (subst lookAheadLoop.simps) (simp add: Let_def split: list.splits)

text \<open>One turn of the loop either leaves it with the batch as it is or pushes a candidate.\<close>

lemma lookAheadLoop_cases:
  obtains (Stop) "fst (lookAheadLoop E cf n batch la) = batch"
  | (Push) fo t where
      "length batch < MAX_BATCH_SIZE" "n + la < length cf"
      "status (cf ! (n + la)) = Pending"
      "getFile E (handle (cf ! (n + la))) = Inr fo" "getDateTaken E fo = Inr t"
      "batch \<noteq> []"
      "\<bar>t - timestamp (last batch)\<bar> < 2000" "\<bar>t - timestamp (hd batch)\<bar> < 4000"
      "lookAheadLoop E cf n batch la =
       lookAheadLoop E cf n
         (batch @ [\<lparr>index = n + la, file' = cf ! (n + la), fileObj = fo, timestamp = t\<rparr>])
         (la + 1)"
proof (cases "length batch < MAX_BATCH_SIZE \<and> n + la < length cf \<and>
    status (cf ! (n + la)) = Pending \<and> batch \<noteq> [] \<and>
    (\<exists>fo t. getFile E (handle (cf ! (n + la))) = Inr fo \<and> getDateTaken E fo = Inr t \<and>
       \<bar>t - timestamp (last batch)\<bar> < 2000 \<and> \<bar>t - timestamp (hd batch)\<bar> < 4000)")
  case True
  then obtain fo t where h: "length batch < MAX_BATCH_SIZE" "n + la < length cf"
      "status (cf ! (n + la)) = Pending"
      "getFile E (handle (cf ! (n + la))) = Inr fo" "getDateTaken E fo = Inr t"
      "batch \<noteq> []"
      "\<bar>t - timestamp (last batch)\<bar> < 2000" "\<bar>t - timestamp (hd batch)\<bar> < 4000"
    by blast
  from lookAheadLoop_push [OF h(1-6)] h(7,8)
  have "lookAheadLoop E cf n batch la =
       lookAheadLoop E cf n
         (batch @ [\<lparr>index = n + la, file' = cf ! (n + la), fileObj = fo, timestamp = t\<rparr>])
         (la + 1)"
    by simp
  with h show ?thesis by (rule Push)
next
  case False
  then have "fst (lookAheadLoop E cf n batch la) = batch"
    by (subst lookAheadLoop.simps) (auto simp: Let_def split: sum.splits list.splits)
  then show ?thesis by (rule Stop)
qed

text \<open>The loop only ever appends to the batch.\<close>

lemma lookAheadLoop_extends:
  "\<exists>rest. fst (lookAheadLoop E cf n batch la) = batch @ rest"
proof (induction "length cf - (n + la)" arbitrary: batch la rule: less_induct)
  case less
  show ?case
  proof (cases rule: lookAheadLoop_cases [of E cf n batch la])
    case Stop
    then show ?thesis by simp
  next
    case (Push fo t)
    let ?c = "\<lparr>index = n + la, file' = cf ! (n + la), fileObj = fo, timestamp = t\<rparr>"
    have "length cf - (n + (la + 1)) < length cf - (n + la)"
      using Push(2) by simp
    then obtain rest where "fst (lookAheadLoop E cf n (batch @ [?c]) (la + 1)) = (batch @ [?c]) @ rest"
      using less.hyps by blast
    with Push(9) show ?thesis by simp
  qed
qed

text \<open>
  Claim C1. In the look-ahead loop, a candidate that is next in the backlog, pending
  and read without error is pushed and the loop goes on exactly when its distance to
  the last candidate is below 2000 ms and its distance to the first candidate is below
  4000 ms; otherwise the loop ends with the batch unchanged. A candidate with the
  timestamp of both is pushed (distance 0). For the adjacent pending items A at 1000,
  B at 1500, C at 3200 and D at 7000 the batch is A, B, C.
\<close>

theorem burst_criterion:
  assumes "length batch < MAX_BATCH_SIZE" and "n + la < length cf" and "batch \<noteq> []"
    and "status (cf ! (n + la)) = Pending"
    and "getFile E (handle (cf ! (n + la))) = Inr fo" and "getDateTaken E fo = Inr t"
  shows "(\<bar>t - timestamp (last batch)\<bar> < 2000 \<and> \<bar>t - timestamp (hd batch)\<bar> < 4000 \<longrightarrow>
            lookAheadLoop E cf n batch la =
              lookAheadLoop E cf n
                (batch @ [\<lparr>index = n + la, file' = cf ! (n + la), fileObj = fo,
                           timestamp = t\<rparr>]) (la + 1) \<and>
            (\<exists>rest. fst (lookAheadLoop E cf n batch la) =
               batch @ \<lparr>index = n + la, file' = cf ! (n + la), fileObj = fo,
                         timestamp = t\<rparr> # rest)) \<and>
         (\<not> (\<bar>t - timestamp (last batch)\<bar> < 2000 \<and> \<bar>t - timestamp (hd batch)\<bar> < 4000) \<longrightarrow>
            lookAheadLoop E cf n batch la = (batch, None)) \<and>
         (t = timestamp (last batch) \<and> t = timestamp (hd batch) \<longrightarrow>
            (\<exists>rest. fst (lookAheadLoop E cf n batch la) =
               batch @ \<lparr>index = n + la, file' = cf ! (n + la), fileObj = fo,
                         timestamp = t\<rparr> # rest)) \<and>
         burstDetection exampleCollaborators exampleBacklog 0 =
           ([exampleCandidate 0 ''A.png'' 1000, exampleCandidate 1 ''B.png'' 1500,
             exampleCandidate 2 ''C.png'' 3200], None)"
proof -
  let ?c = "\<lparr>index = n + la, file' = cf ! (n + la), fileObj = fo, timestamp = t\<rparr>"
  let ?ok = "\<bar>t - timestamp (last batch)\<bar> < 2000 \<and> \<bar>t - timestamp (hd batch)\<bar> < 4000"
  note step = lookAheadLoop_push [OF assms(1,2,4,5,6,3)]
  have push: "lookAheadLoop E cf n batch la = lookAheadLoop E cf n (batch @ [?c]) (la + 1)"
    if ?ok
    using step that by simp
  have incl: "\<exists>rest. fst (lookAheadLoop E cf n batch la) = batch @ ?c # rest" if ?ok
  proof -
    obtain rest where "fst (lookAheadLoop E cf n (batch @ [?c]) (la + 1)) = (batch @ [?c]) @ rest"
      using lookAheadLoop_extends by blast
    with push [OF that] show ?thesis by simp
  qed
  have stop: "lookAheadLoop E cf n batch la = (batch, None)" if "\<not> ?ok"
    using step that by simp
  have zero: "?ok" if "t = timestamp (last batch) \<and> t = timestamp (hd batch)"
    using that by simp
  have example: "burstDetection exampleCollaborators exampleBacklog 0 =
           ([exampleCandidate 0 ''A.png'' 1000, exampleCandidate 1 ''B.png'' 1500,
             exampleCandidate 2 ''C.png'' 3200], None)"
    by (simp add: burstDetection_def lookAheadLoop.simps example_defs)
  from push incl stop zero example show ?thesis by blast
qed

theorem burst_criterion_witness:
  "lookAheadLoop exampleCollaborators exampleBacklog 0
     [exampleCandidate 0 ''A.png'' 1000, exampleCandidate 1 ''B.png'' 1500] 2 =
   lookAheadLoop exampleCollaborators exampleBacklog 0
     ([exampleCandidate 0 ''A.png'' 1000, exampleCandidate 1 ''B.png'' 1500] @
      [exampleCandidate 2 ''C.png'' 3200]) 3"
proof -
  let ?b = "[exampleCandidate 0 ''A.png'' 1000, exampleCandidate 1 ''B.png'' 1500]"
  let ?f = "\<lparr>fileType = ''image/png'', lastModified = 3200, content = None\<rparr>"
  have h1: "length ?b < MAX_BATCH_SIZE" by (simp add: MAX_BATCH_SIZE_def)
  have h2: "0 + 2 < length exampleBacklog" by (simp add: exampleBacklog_def)
  have h3: "?b \<noteq> []" by simp
  have nth: "exampleBacklog ! (0 + 2) = exampleItem ''C.png'' Pending"
    by (simp add: exampleBacklog_def)
  have h4: "status (exampleBacklog ! (0 + 2)) = Pending"
    unfolding nth by (simp add: exampleItem_def)
  have h5: "getFile exampleCollaborators (handle (exampleBacklog ! (0 + 2))) = Inr ?f"
    unfolding nth
    by (simp add: exampleCollaborators_def exampleItem_def exampleGetFile_def exampleTimes_def)
  have h6: "getDateTaken exampleCollaborators ?f = Inr 3200"
    by (simp add: exampleCollaborators_def getDateTaken'_def)
  have ok: "\<bar>3200 - timestamp (last ?b)\<bar> < 2000 \<and> \<bar>3200 - timestamp (hd ?b)\<bar> < 4000"
    by (simp add: exampleCandidate_def)
  have c: "\<lparr>index = 0 + 2, file' = exampleBacklog ! (0 + 2), fileObj = ?f, timestamp = 3200\<rparr> =
           exampleCandidate 2 ''C.png'' 3200"
    unfolding nth by (simp add: exampleCandidate_def)
  from burst_criterion [OF h1 h2 h3 h4 h5 h6] ok
  have "lookAheadLoop exampleCollaborators exampleBacklog 0 ?b 2 =
        lookAheadLoop exampleCollaborators exampleBacklog 0
          (?b @ [\<lparr>index = 0 + 2, file' = exampleBacklog ! (0 + 2), fileObj = ?f,
                   timestamp = 3200\<rparr>]) (2 + 1)"
    by blast
  then show ?thesis unfolding c by simp
qed

lemma runOf_extend:
  assumes "runOf cf n batch" "length batch < MAX_BATCH_SIZE" "n + length batch < length cf"
    "status (cf ! (n + length batch)) = Pending"
  shows "runOf cf n (batch @ [\<lparr>index = n + length batch, file' = cf ! (n + length batch),
           fileObj = fo, timestamp = t\<rparr>])"
proof -
  have "take (Suc (length batch)) (drop n cf) =
        take (length batch) (drop n cf) @ [cf ! (n + length batch)]"
    using assms(3) by (simp add: take_Suc_conv_app_nth)
  then show ?thesis
    using assms by (simp add: runOf_def)
qed

lemma lookAheadLoop_runOf:
  "runOf cf n batch \<Longrightarrow> la = length batch \<Longrightarrow>
   runOf cf n (fst (lookAheadLoop E cf n batch la))"
proof (induction "length cf - (n + la)" arbitrary: batch la rule: less_induct)
  case less
  show ?case
  proof (cases rule: lookAheadLoop_cases [of E cf n batch la])
    case Stop
    with less.prems show ?thesis by simp
  next
    case (Push fo t)
    let ?b = "batch @ [\<lparr>index = n + la, file' = cf ! (n + la), fileObj = fo, timestamp = t\<rparr>]"
    have "runOf cf n ?b"
      using runOf_extend [of cf n batch fo t] less.prems Push(1-3) by simp
    moreover have "la + 1 = length ?b" using less.prems by simp
    moreover have "length cf - (n + (la + 1)) < length cf - (n + la)"
      using Push(2) by simp
    ultimately have "runOf cf n (fst (lookAheadLoop E cf n ?b (la + 1)))"
      using less.hyps by blast
    with Push(9) show ?thesis by simp
  qed
qed

lemma burstDetection_runOf:
  assumes "findIndex (\<lambda>f. status f = Pending) cf = Some n"
  shows "runOf cf n (fst (burstDetection E cf n))"
proof -
  from findIndex_Some [OF assms] have n: "n < length cf" "status (cf ! n) = Pending"
    by auto
  have e: "runOf cf n ([] :: ('a, 'b, 'c) candidate list)"
    using n by (simp add: runOf_def)
  have "runOf cf n [\<lparr>index = n, file' = cf ! n, fileObj = fo, timestamp = t\<rparr>]"
    for fo :: 'c and t
    using runOf_extend [OF e, of fo t] n by (simp add: MAX_BATCH_SIZE_def)
  then show ?thesis
    using n e by (auto simp: burstDetection_def lookAheadLoop_runOf split: sum.splits)
qed

text \<open>
  Claim C2. When the backlog the pass reads has no pending item, the pass leaves the
  state as it is. Otherwise, with \<open>n\<close> the index of the first pending item, the run the
  burst detection collects has at most 4 candidates, all of them pending, and is the
  slice of the backlog that starts at \<open>n\<close> and has the length of the run; this run is
  what the pass goes on with.
\<close>

theorem burst_run_shape:
  "(findIndex (\<lambda>f. status f = Pending) (filesRef s) = None \<longrightarrow> processQueue_enter s = s) \<and>
   (findIndex (\<lambda>f. status f = Pending) cf = Some n \<longrightarrow>
      length (fst (burstDetection E cf n)) \<le> 4 \<and>
      (\<forall>c \<in> set (fst (burstDetection E cf n)). status (file' c) = Pending) \<and>
      map file' (fst (burstDetection E cf n)) =
        take (length (fst (burstDetection E cf n))) (drop n cf) \<and>
      map index (fst (burstDetection E cf n)) =
        [n ..< n + length (fst (burstDetection E cf n))] \<and>
      (\<forall>j<n. status (cf ! j) \<noteq> Pending)) \<and>
   (k < length (inFlight s) \<and> inFlight s ! k = Detecting cf n \<longrightarrow>
      inFlight (processQueue_detect E k s) ! k = Grading (fst (burstDetection E cf n)))"
proof -
  have idle: "processQueue_enter s = s"
    if "findIndex (\<lambda>f. status f = Pending) (filesRef s) = None"
    using that by (simp add: processQueue_enter_def)
  have shape: "length (fst (burstDetection E cf n)) \<le> 4 \<and>
      (\<forall>c \<in> set (fst (burstDetection E cf n)). status (file' c) = Pending) \<and>
      map file' (fst (burstDetection E cf n)) =
        take (length (fst (burstDetection E cf n))) (drop n cf) \<and>
      map index (fst (burstDetection E cf n)) =
        [n ..< n + length (fst (burstDetection E cf n))] \<and>
      (\<forall>j<n. status (cf ! j) \<noteq> Pending)"
    if "findIndex (\<lambda>f. status f = Pending) cf = Some n"
    using burstDetection_runOf [OF that, of E] findIndex_Some [OF that]
    by (simp add: runOf_def MAX_BATCH_SIZE_def list_all_iff)
  have pass: "inFlight (processQueue_detect E k s) ! k = Grading (fst (burstDetection E cf n))"
    if "k < length (inFlight s) \<and> inFlight s ! k = Detecting cf n"
    using that by (simp add: processQueue_detect_def Let_def)
  from idle shape pass show ?thesis by blast
qed

theorem burst_run_shape_witness:
  "findIndex (\<lambda>f. status f = Pending) exampleBacklog = Some 0 \<and>
   findIndex (\<lambda>f. status f = Pending)
     (filesRef (initialState :: (dirEntry, bool, File, unit) AppState)) = None \<and>
   length (fst (burstDetection exampleCollaborators exampleBacklog 0)) \<le> 4 \<and>
   processQueue_enter (initialState :: (dirEntry, bool, File, unit) AppState) = initialState"
proof -
  have h1: "findIndex (\<lambda>f. status f = Pending) exampleBacklog = Some 0"
    by (simp add: exampleBacklog_def exampleItem_def)
  have h2: "findIndex (\<lambda>f. status f = Pending)
     (filesRef (initialState :: (dirEntry, bool, File, unit) AppState)) = None"
    by (simp add: initialState_def)
  from burst_run_shape [of "initialState :: (dirEntry, bool, File, unit) AppState"
      exampleBacklog 0 exampleCollaborators 0] h1 h2
  show ?thesis by blast
qed

section \<open>Properties of running a batch\<close>

lemma promiseAll_map_Inr: "promiseAll (map Inr xs) = Inr xs"
  by (induction xs) auto

lemma promiseAll_Inr_D: "promiseAll ps = Inr xs \<Longrightarrow> ps = map Inr xs"
proof (induction ps arbitrary: xs)
  case Nil
  then show ?case by auto
next
  case (Cons p ps)
  then show ?case by (cases p) (auto split: sum.splits)
qed

lemma promiseAll_Inl: "promiseAll ps = Inl e \<Longrightarrow> Inl e \<in> set ps"
proof (induction ps)
  case Nil
  then show ?case by simp
next
  case (Cons p ps)
  then show ?case by (cases p) (auto split: sum.splits)
qed

lemma promiseAll_rejects: "Inl e \<in> set ps \<Longrightarrow> \<exists>e'. promiseAll ps = Inl e'"
proof (induction ps)
  case Nil
  then show ?case by simp
next
  case (Cons p ps)
  then show ?case by (cases p) (auto split: sum.splits)
qed

lemma memberUpdate_Inl:
  "memberUpdate E g c = Inl e \<longleftrightarrow> g (name (file' c)) = None \<and> e = NoResult (name (file' c))"
  by (auto simp: memberUpdate_def split: option.splits)

lemma group_missing_fails:
  assumes "1 < length batch"
    and "promiseAll (map (prepare E) batch) = Inr prepared"
    and "evaluateImageGroup E prepared = Inr groupResults"
    and "c \<in> set batch" and "groupResults (name (file' c)) = None"
  shows "\<exists>m\<in>set batch. groupResults (name (file' m)) = None \<and>
           runBatch E batch = Failed (NoResult (name (file' m)))"
proof -
  have "Inl (NoResult (name (file' c))) \<in> set (map (memberUpdate E groupResults) batch)"
    using assms(4,5) by (force simp: memberUpdate_def)
  then obtain e where e: "promiseAll (map (memberUpdate E groupResults) batch) = Inl e"
    using promiseAll_rejects by blast
  from promiseAll_Inl [OF e] obtain m where "m \<in> set batch" "memberUpdate E groupResults m = Inl e"
    by auto
  then have "m \<in> set batch" "groupResults (name (file' m)) = None" "e = NoResult (name (file' m))"
    by (auto simp: memberUpdate_Inl)
  moreover have "runBatch E batch = Failed e"
    using assms(1-3) e by (simp add: runBatch_def)
  ultimately show ?thesis by blast
qed


lemma findIndex_map: "findIndex (\<lambda>f. p (g f)) xs = findIndex p (map g xs)"
  by (induction xs) auto

lemma clearX_id: "clearX f = clearX f' \<Longrightarrow> id' f = id' f'"
proof -
  assume "clearX f = clearX f'"
  then have "id' (clearX f) = id' (clearX f')" by (rule arg_cong)
  then show ?thesis by (simp add: clearX_def)
qed

lemma map_clearX_ids:
  assumes "map clearX xs = map clearX ys"
  shows "map id' xs = map id' ys"
proof -
  have c: "id' \<circ> clearX = (id' :: ('a, 'b) ImageFile \<Rightarrow> string)"
    by (rule ext) (simp add: clearX_def)
  have "map id' (map clearX xs) = map id' (map clearX ys)" using assms by (rule arg_cong)
  then show ?thesis unfolding map_map c .
qed

lemma clearX_spread_commute: "clearX (spread f u) = clearX (spread (clearX f) u)"
  by (simp add: clearX_def spread_def)

lemma clearX_spread_same:
  "sameButSidecar u v \<Longrightarrow> clearX (spread g u) = clearX (spread g v)"
  by (simp add: clearX_def spread_def sameButSidecar_def)

lemma clearX_spread:
  assumes "clearX f = clearX f'" "sameButSidecar u v"
  shows "clearX (spread f u) = clearX (spread f' v)"
proof -
  have "clearX (spread f u) = clearX (spread (clearX f) u)" by (rule clearX_spread_commute)
  also have "\<dots> = clearX (spread (clearX f') u)" using assms(1) by simp
  also have "\<dots> = clearX (spread f' u)" by (rule clearX_spread_commute [symmetric])
  also have "\<dots> = clearX (spread f' v)" using assms(2) by (rule clearX_spread_same)
  finally show ?thesis .
qed

lemma applyUpdates_clearX:
  "list_all2 sameButSidecar us vs \<Longrightarrow> map clearX xs = map clearX ys \<Longrightarrow>
   map clearX (applyUpdates us xs) = map clearX (applyUpdates vs ys)"
proof (induction us vs arbitrary: xs ys rule: list_all2_induct)
  case Nil
  then show ?case by simp
next
  case (Cons u us v vs)
  have ids: "map id' xs = map id' ys" using Cons.prems by (rule map_clearX_ids)
  have len: "length xs = length ys" using Cons.prems by (rule map_eq_imp_length_eq)
  have fi: "findIndex (\<lambda>f. id' f = uid u) xs = findIndex (\<lambda>f. id' f = uid v) ys"
  proof -
    have "uid v = uid u" using Cons.hyps(1) by (simp add: sameButSidecar_def)
    moreover have "findIndex (\<lambda>f. id' f = uid u) xs = findIndex (\<lambda>i. i = uid u) (map id' xs)"
      by (rule findIndex_map)
    moreover have "findIndex (\<lambda>f. id' f = uid u) ys = findIndex (\<lambda>i. i = uid u) (map id' ys)"
      by (rule findIndex_map)
    ultimately show ?thesis using ids by simp
  qed
  let ?xs = "case findIndex (\<lambda>f. id' f = uid u) xs of None \<Rightarrow> xs
             | Some idx \<Rightarrow> xs[idx := spread (xs ! idx) u]"
  let ?ys = "case findIndex (\<lambda>f. id' f = uid v) ys of None \<Rightarrow> ys
             | Some idx \<Rightarrow> ys[idx := spread (ys ! idx) v]"
  have "map clearX ?xs = map clearX ?ys"
  proof (cases "findIndex (\<lambda>f. id' f = uid u) xs")
    case None
    moreover have "findIndex (\<lambda>f. id' f = uid v) ys = None" using None fi by simp
    ultimately show ?thesis using Cons.prems by simp
  next
    case (Some idx)
    from findIndex_Some [OF Some] have idx: "idx < length xs" by simp
    have "map clearX xs ! idx = map clearX ys ! idx" using Cons.prems by simp
    then have "clearX (xs ! idx) = clearX (ys ! idx)"
      using idx len by simp
    then have "clearX (spread (xs ! idx) u) = clearX (spread (ys ! idx) v)"
      using Cons.hyps(1) by (rule clearX_spread)
    moreover have "findIndex (\<lambda>f. id' f = uid v) ys = Some idx" using Some fi by simp
    moreover have "(map clearX xs)[idx := clearX (spread (ys ! idx) v)] =
        (map clearX ys)[idx := clearX (spread (ys ! idx) v)]"
      using Cons.prems by (rule arg_cong)
    ultimately show ?thesis
      using Some by (simp add: map_update)
  qed
  then have "map clearX (applyUpdates us ?xs) = map clearX (applyUpdates vs ?ys)"
    by (rule Cons.IH)
  then show ?case by simp
qed


lemma prepare_saveXMP [simp]: "prepare (E\<lparr>saveXMP := sv\<rparr>) = prepare E"
  by (rule ext) (simp add: prepare_def)

lemma memberUpdates_saveXMP:
  "(\<exists>e. promiseAll (map (memberUpdate (E\<lparr>saveXMP := sv\<rparr>) g) batch) = Inl e \<and>
        promiseAll (map (memberUpdate E g) batch) = Inl e) \<or>
   (\<exists>us vs. promiseAll (map (memberUpdate (E\<lparr>saveXMP := sv\<rparr>) g) batch) = Inr us \<and>
        promiseAll (map (memberUpdate E g) batch) = Inr vs \<and> list_all2 sameButSidecar us vs)"
proof (induction batch)
  case Nil
  then show ?case by simp
next
  case (Cons c batch)
  show ?case
  proof (cases "g (name (file' c))")
    case None
    then show ?thesis by (simp add: memberUpdate_def)
  next
    case (Some r)
    with Cons show ?thesis
      by (auto simp: memberUpdate_def sameButSidecar_def)
  qed
qed

lemma runBatch_saveXMP: "sameOutcome (runBatch (E\<lparr>saveXMP := sv\<rparr>) batch) (runBatch E batch)"
proof (cases "1 < length batch")
  case True
  show ?thesis
  proof (cases "promiseAll (map (prepare E) batch)")
    case (Inl e)
    with True show ?thesis by (simp add: runBatch_def sameOutcome_def)
  next
    case (Inr prepared)
    show ?thesis
    proof (cases "evaluateImageGroup E prepared")
      case (Inl e)
      with True Inr show ?thesis by (simp add: runBatch_def sameOutcome_def)
    next
      case g: (Inr g)
      from memberUpdates_saveXMP [where E=E and sv=sv and g=g and batch=batch] True Inr g show ?thesis
        by (auto simp: runBatch_def sameOutcome_def)
    qed
  qed
next
  case False
  then show ?thesis
    by (auto simp: runBatch_def sameOutcome_def saveSidecar_def
        split: list.splits sum.splits prod.splits)
qed

lemma applyOutcome_clearX:
  assumes "sameOutcome a b"
  shows "map clearX (applyOutcome ids a prev) = map clearX (applyOutcome ids b prev)"
proof (cases a)
  case (GroupDone us)
  with assms obtain vs where "b = GroupDone vs" "list_all2 sameButSidecar us vs"
    by (cases b) (auto simp: sameOutcome_def)
  with GroupDone show ?thesis by (simp add: applyUpdates_clearX)
next
  case (SingleDone i ev x)
  with assms obtain y where "b = SingleDone i ev y"
    by (cases b) (auto simp: sameOutcome_def)
  with SingleDone show ?thesis by (simp add: clearX_def)
next
  case (Failed e)
  with assms have "b = Failed e"
    by (cases b) (auto simp: sameOutcome_def)
  with Failed show ?thesis by simp
qed


lemma findIndex_None_iff: "findIndex p xs = None \<longleftrightarrow> (\<forall>x\<in>set xs. \<not> p x)"
  by (induction xs) auto

lemma id_spread [simp]: "id' (spread f u) = uid u"
  by (simp add: spread_def)

text \<open>With distinct ids, one update rewrites exactly the items with its id.\<close>

lemma update_step:
  assumes "distinct (map id' next)"
  shows "(case findIndex (\<lambda>f. id' f = k) next of
            None \<Rightarrow> next
          | Some idx \<Rightarrow> next[idx := g (next ! idx)]) =
         map (\<lambda>f. if id' f = k then g f else f) next"
  using assms
proof (induction "next")
  case Nil
  then show ?case by simp
next
  case (Cons x xs)
  show ?case
  proof (cases "id' x = k")
    case True
    with Cons.prems have "\<forall>f\<in>set xs. id' f \<noteq> k" by (auto simp: image_iff)
    then have "map (\<lambda>f. if id' f = k then g f else f) xs = xs"
      by (simp add: map_idI)
    with True show ?thesis by simp
  next
    case False
    with Cons show ?thesis
      by (cases "findIndex (\<lambda>f. id' f = k) xs") auto
  qed
qed

lemma applyUpdates_nth:
  assumes "distinct (map id' next)" "distinct (map uid us)" "i < length next"
  shows "length (applyUpdates us next) = length next \<and>
         applyUpdates us next ! i =
           (case find (\<lambda>u. uid u = id' (next ! i)) us of
              None \<Rightarrow> next ! i
            | Some u \<Rightarrow> spread (next ! i) u)"
  using assms
proof (induction us arbitrary: "next")
  case Nil
  then show ?case by simp
next
  case (Cons u us)
  let ?n = "map (\<lambda>f. if id' f = uid u then spread f u else f) next"
  have step: "applyUpdates (u # us) next = applyUpdates us ?n"
    using update_step [OF Cons.prems(1), where k="uid u" and g="\<lambda>f. spread f u"] by simp
  have ids: "map id' ?n = map id' next"
    by (induction "next") auto
  have d: "distinct (map id' ?n)" unfolding ids by (rule Cons.prems(1))
  have i: "i < length ?n" using Cons.prems(3) by simp
  from Cons.IH [OF d _ i] Cons.prems(2)
  have IH: "length (applyUpdates us ?n) = length ?n \<and>
         applyUpdates us ?n ! i =
           (case find (\<lambda>v. uid v = id' (?n ! i)) us of
              None \<Rightarrow> ?n ! i
            | Some v \<Rightarrow> spread (?n ! i) v)"
    by simp
  have idi: "id' (?n ! i) = id' (next ! i)"
    using Cons.prems(3) by simp
  have ni: "?n ! i = (if id' (next ! i) = uid u then spread (next ! i) u else next ! i)"
    using Cons.prems(3) by simp
  show ?case
  proof (cases "uid u = id' (next ! i)")
    case True
    then have "find (\<lambda>v. uid v = id' (next ! i)) us = None"
      using Cons.prems(2) by (auto simp: find_None_iff image_iff)
    with IH True Cons.prems(3) show ?thesis
      unfolding step idi ni by simp
  next
    case False
    then have "id' (next ! i) \<noteq> uid u" by simp
    with IH False Cons.prems(3) show ?thesis
      unfolding step idi ni by simp
  qed
qed


lemma memberUpdates_Inr:
  "promiseAll (map (memberUpdate E g) batch) = Inr us \<Longrightarrow>
   us = map (groupUpdate E g) batch \<and> (\<forall>c\<in>set batch. g (name (file' c)) \<noteq> None)"
proof (induction batch arbitrary: us)
  case Nil
  then show ?case by simp
next
  case (Cons c batch)
  then show ?case
    by (cases "g (name (file' c))")
       (auto simp: memberUpdate_def groupUpdate_def split: sum.splits)
qed

lemma runBatch_group_success:
  assumes "1 < length batch" "\<forall>e. runBatch E batch \<noteq> Failed e"
  shows "\<exists>g. runBatch E batch = GroupDone (map (groupUpdate E g) batch) \<and>
             (\<forall>c\<in>set batch. g (name (file' c)) \<noteq> None)"
proof -
  from assms obtain prepared g us where
    "promiseAll (map (memberUpdate E g) batch) = Inr us" "runBatch E batch = GroupDone us"
    by (auto simp: runBatch_def split: sum.splits)
  with memberUpdates_Inr [of E g batch us] show ?thesis by auto
qed

lemma runBatch_single_success:
  assumes "\<not> 1 < length batch" "\<forall>e. runBatch E batch \<noteq> Failed e"
  shows "\<exists>target ev. batch = [target] \<and>
           runBatch E batch =
             SingleDone (id' (file' target)) ev (saveSidecar E (name (file' target)) ev)"
  using assms
  by (cases batch) (auto simp: runBatch_def split: sum.splits prod.splits)

lemma find_groupUpdate:
  "distinct (map (\<lambda>c. id' (file' c)) batch) \<Longrightarrow> c \<in> set batch \<Longrightarrow>
   find (\<lambda>u. uid u = id' (file' c)) (map (groupUpdate E g) batch) = Some (groupUpdate E g c)"
proof (induction batch)
  case Nil
  then show ?case by simp
next
  case (Cons x batch)
  then show ?case by (auto simp: groupUpdate_def image_iff)
qed

lemma member_done:
  assumes "\<forall>e. runBatch E batch \<noteq> Failed e" and "c \<in> set batch"
    and "distinct (map id' prev)" and "distinct (map (\<lambda>c. id' (file' c)) batch)"
    and "i < length prev" and "id' (prev ! i) = id' (file' c)"
  shows "\<exists>r. status (applyOutcome ids (runBatch E batch) prev ! i) = Done \<and>
             evaluation (applyOutcome ids (runBatch E batch) prev ! i) = Some r \<and>
             xmpHandle (applyOutcome ids (runBatch E batch) prev ! i) =
               saveSidecar E (name (file' c)) r"
proof (cases "1 < length batch")
  case True
  from runBatch_group_success [OF True assms(1)] obtain g where
    g: "runBatch E batch = GroupDone (map (groupUpdate E g) batch)" by blast
  have du: "distinct (map uid (map (groupUpdate E g) batch))"
    using assms(4) by (simp add: comp_def groupUpdate_def)
  have "applyUpdates (map (groupUpdate E g) batch) prev ! i = spread (prev ! i) (groupUpdate E g c)"
    using applyUpdates_nth [OF assms(3) du assms(5)] find_groupUpdate [OF assms(4,2), of E g]
      assms(6) by simp
  then show ?thesis
    unfolding g by (simp add: spread_def groupUpdate_def)
next
  case False
  from runBatch_single_success [OF False assms(1)] obtain target ev where
    t: "batch = [target]"
      "runBatch E batch =
         SingleDone (id' (file' target)) ev (saveSidecar E (name (file' target)) ev)"
    by blast
  with assms(2) have "c = target" by simp
  then show ?thesis
    unfolding t(2) using assms(5,6) by simp
qed

lemma runBatch_group_response:
  assumes "1 < length batch" and "promiseAll (map (prepare E) batch) = Inr prepared"
    and "evaluateImageGroup E prepared = Inr g" and "\<forall>e. runBatch E batch \<noteq> Failed e"
  shows "runBatch E batch = GroupDone (map (groupUpdate E g) batch) \<and>
         (\<forall>c\<in>set batch. g (name (file' c)) \<noteq> None)"
proof -
  from assms obtain us where
    "promiseAll (map (memberUpdate E g) batch) = Inr us" "runBatch E batch = GroupDone us"
    by (auto simp: runBatch_def split: sum.splits)
  with memberUpdates_Inr [of E g batch us] show ?thesis by auto
qed

lemma member_evaluation:
  assumes "1 < length batch" and "promiseAll (map (prepare E) batch) = Inr prepared"
    and "evaluateImageGroup E prepared = Inr g" and "\<forall>e. runBatch E batch \<noteq> Failed e"
    and "c \<in> set batch"
    and "distinct (map id' prev)" and "distinct (map (\<lambda>c. id' (file' c)) batch)"
    and "i < length prev" and "id' (prev ! i) = id' (file' c)"
  shows "evaluation (applyOutcome ids (runBatch E batch) prev ! i) = g (name (file' c))"
proof -
  from runBatch_group_response [OF assms(1-4)] have
    g: "runBatch E batch = GroupDone (map (groupUpdate E g) batch)"
    and some: "g (name (file' c)) \<noteq> None"
    using assms(5) by auto
  have du: "distinct (map uid (map (groupUpdate E g) batch))"
    using assms(7) by (simp add: comp_def groupUpdate_def)
  have "applyUpdates (map (groupUpdate E g) batch) prev ! i = spread (prev ! i) (groupUpdate E g c)"
    using applyUpdates_nth [OF assms(6) du assms(8)] find_groupUpdate [OF assms(7,5), of E g]
      assms(9) by simp
  then show ?thesis
    unfolding g using some by (auto simp: spread_def groupUpdate_def)
qed

lemma saveSidecar_fails:
  "\<forall>d r. \<exists>e. saveXMP E d n r = Inl e \<Longrightarrow> saveSidecar E n r = None"
proof -
  assume a: "\<forall>d r. \<exists>e. saveXMP E d n r = Inl e"
  show ?thesis
  proof (cases "dirHandle E")
    case None
    then show ?thesis by (simp add: saveSidecar_def)
  next
    case (Some d)
    from a obtain e where "saveXMP E d n r = Inl e" by blast
    with Some show ?thesis by (simp add: saveSidecar_def)
  qed
qed

text \<open>
  Claim C3. For a run of more than one member whose members were all prepared, if the
  group response has no result under the file name of some member, the batch fails
  with the error that names a member without result; every item whose id is in the
  batch gets the status error and every other item is left as it is, so no item
  becomes done.
\<close>

theorem group_all_or_nothing:
  assumes "1 < length batch"
    and "promiseAll (map (prepare E) batch) = Inr prepared"
    and "evaluateImageGroup E prepared = Inr groupResults"
    and "c \<in> set batch" and "groupResults (name (file' c)) = None"
  shows "(\<exists>m\<in>set batch. groupResults (name (file' m)) = None \<and>
            runBatch E batch = Failed (NoResult (name (file' m)))) \<and>
         length (applyOutcome (processingIds batch) (runBatch E batch) prev) = length prev \<and>
         (\<forall>i<length prev.
            (id' (prev ! i) \<in> processingIds batch \<longrightarrow>
               status (applyOutcome (processingIds batch) (runBatch E batch) prev ! i) = Error) \<and>
            (id' (prev ! i) \<notin> processingIds batch \<longrightarrow>
               applyOutcome (processingIds batch) (runBatch E batch) prev ! i = prev ! i))"
proof -
  from group_missing_fails [OF assms] obtain m where
    m: "m \<in> set batch" "groupResults (name (file' m)) = None"
       "runBatch E batch = Failed (NoResult (name (file' m)))"
    by blast
  have "length (applyOutcome (processingIds batch) (runBatch E batch) prev) = length prev"
    unfolding m(3) by simp
  moreover have "\<forall>i<length prev.
      (id' (prev ! i) \<in> processingIds batch \<longrightarrow>
         status (applyOutcome (processingIds batch) (runBatch E batch) prev ! i) = Error) \<and>
      (id' (prev ! i) \<notin> processingIds batch \<longrightarrow>
         applyOutcome (processingIds batch) (runBatch E batch) prev ! i = prev ! i)"
    unfolding m(3) by simp
  ultimately show ?thesis using m by blast
qed

theorem group_all_or_nothing_witness:
  "status (applyOutcome (processingIds exampleBatch) (runBatch exampleOmitting exampleBatch)
             examplePrev ! 0) = Error \<and>
   status (applyOutcome (processingIds exampleBatch) (runBatch exampleOmitting exampleBatch)
             examplePrev ! 1) = Error \<and>
   applyOutcome (processingIds exampleBatch) (runBatch exampleOmitting exampleBatch)
             examplePrev ! 2 = examplePrev ! 2"
proof -
  let ?prepared = "[(''A.png'', ''base64'', ''image/jpeg''), (''B.png'', ''base64'', ''image/jpeg'')]"
  have h1: "1 < length exampleBatch" by (simp add: exampleBatch_def)
  have h2: "promiseAll (map (prepare exampleOmitting) exampleBatch) = Inr ?prepared"
    by (simp add: exampleBatch_def exampleOmitting_def exampleCollaborators_def prepare_def
        exampleCandidate_def exampleItem_def)
  have h3: "evaluateImageGroup exampleOmitting ?prepared = Inr [''A.png'' \<mapsto> True]"
    by (simp add: exampleOmitting_def)
  have h4: "exampleCandidate 1 ''B.png'' 1500 \<in> set exampleBatch"
    by (simp add: exampleBatch_def)
  have h5: "[''A.png'' \<mapsto> True] (name (file' (exampleCandidate 1 ''B.png'' 1500))) = None"
    by (simp add: exampleCandidate_def exampleItem_def)
  have ids: "processingIds exampleBatch = {''A.png'', ''B.png''}"
    by (auto simp: processingIds_def exampleBatch_def exampleCandidate_def exampleItem_def)
  have p: "length examplePrev = 4" "id' (examplePrev ! 0) = ''A.png''"
    "id' (examplePrev ! 1) = ''B.png''" "id' (examplePrev ! 2) = ''C.png''"
    by (simp_all add: examplePrev_def exampleItem_def)
  from group_all_or_nothing [OF h1 h2 h3 h4 h5, of examplePrev]
  have "\<forall>i<length examplePrev.
            (id' (examplePrev ! i) \<in> processingIds exampleBatch \<longrightarrow>
               status (applyOutcome (processingIds exampleBatch)
                  (runBatch exampleOmitting exampleBatch) examplePrev ! i) = Error) \<and>
            (id' (examplePrev ! i) \<notin> processingIds exampleBatch \<longrightarrow>
               applyOutcome (processingIds exampleBatch)
                  (runBatch exampleOmitting exampleBatch) examplePrev ! i = examplePrev ! i)"
    by blast
  then have "\<forall>i\<in>{0, 1, 2}.
            (id' (examplePrev ! i) \<in> processingIds exampleBatch \<longrightarrow>
               status (applyOutcome (processingIds exampleBatch)
                  (runBatch exampleOmitting exampleBatch) examplePrev ! i) = Error) \<and>
            (id' (examplePrev ! i) \<notin> processingIds exampleBatch \<longrightarrow>
               applyOutcome (processingIds exampleBatch)
                  (runBatch exampleOmitting exampleBatch) examplePrev ! i = examplePrev ! i)"
    using p(1) by simp
  then show ?thesis
    unfolding ids using p(2-4) by simp
qed

text \<open>
  Claim C7. Whatever the sidecar writes do, the items after the batch are the same up
  to their sidecar references: the outcome of the batch and the status, evaluation and
  error message of every item do not depend on them. After a batch that did not fail,
  an item with the id of a member is done and has its evaluation (for a group, the
  result under the member's file name); its sidecar reference is what the write
  returned, and is absent when the write throws. Ids are taken to be distinct.
\<close>

theorem sidecar_failure_swallowed:
  "map clearX (applyOutcome ids (runBatch (E\<lparr>saveXMP := sv\<rparr>) batch) prev) =
     map clearX (applyOutcome ids (runBatch E batch) prev) \<and>
   ((\<forall>e. runBatch E batch \<noteq> Failed e) \<and> c \<in> set batch \<and>
    distinct (map id' prev) \<and> distinct (map (\<lambda>c. id' (file' c)) batch) \<and>
    i < length prev \<and> id' (prev ! i) = id' (file' c) \<longrightarrow>
      (\<exists>r. status (applyOutcome ids (runBatch E batch) prev ! i) = Done \<and>
           evaluation (applyOutcome ids (runBatch E batch) prev ! i) = Some r \<and>
           xmpHandle (applyOutcome ids (runBatch E batch) prev ! i) =
             saveSidecar E (name (file' c)) r) \<and>
      ((\<forall>d r. \<exists>e. saveXMP E d (name (file' c)) r = Inl e) \<longrightarrow>
         xmpHandle (applyOutcome ids (runBatch E batch) prev ! i) = None) \<and>
      (1 < length batch \<and> promiseAll (map (prepare E) batch) = Inr prepared \<and>
       evaluateImageGroup E prepared = Inr g \<longrightarrow>
         evaluation (applyOutcome ids (runBatch E batch) prev ! i) = g (name (file' c))))"
proof -
  have isolated: "map clearX (applyOutcome ids (runBatch (E\<lparr>saveXMP := sv\<rparr>) batch) prev) =
     map clearX (applyOutcome ids (runBatch E batch) prev)"
    using runBatch_saveXMP by (rule applyOutcome_clearX)
  have member: "(\<exists>r. status (applyOutcome ids (runBatch E batch) prev ! i) = Done \<and>
           evaluation (applyOutcome ids (runBatch E batch) prev ! i) = Some r \<and>
           xmpHandle (applyOutcome ids (runBatch E batch) prev ! i) =
             saveSidecar E (name (file' c)) r) \<and>
      ((\<forall>d r. \<exists>e. saveXMP E d (name (file' c)) r = Inl e) \<longrightarrow>
         xmpHandle (applyOutcome ids (runBatch E batch) prev ! i) = None) \<and>
      (1 < length batch \<and> promiseAll (map (prepare E) batch) = Inr prepared \<and>
       evaluateImageGroup E prepared = Inr g \<longrightarrow>
         evaluation (applyOutcome ids (runBatch E batch) prev ! i) = g (name (file' c)))"
    if h: "(\<forall>e. runBatch E batch \<noteq> Failed e) \<and> c \<in> set batch \<and>
      distinct (map id' prev) \<and> distinct (map (\<lambda>c. id' (file' c)) batch) \<and>
      i < length prev \<and> id' (prev ! i) = id' (file' c)"
  proof -
    from h have a: "\<forall>e. runBatch E batch \<noteq> Failed e" "c \<in> set batch"
      "distinct (map id' prev)" "distinct (map (\<lambda>c. id' (file' c)) batch)"
      "i < length prev" "id' (prev ! i) = id' (file' c)"
      by blast+
    from member_done [OF a, of ids] obtain r where
      r: "status (applyOutcome ids (runBatch E batch) prev ! i) = Done"
         "evaluation (applyOutcome ids (runBatch E batch) prev ! i) = Some r"
         "xmpHandle (applyOutcome ids (runBatch E batch) prev ! i) =
            saveSidecar E (name (file' c)) r"
      by blast
    have "xmpHandle (applyOutcome ids (runBatch E batch) prev ! i) = None"
      if "\<forall>d r. \<exists>e. saveXMP E d (name (file' c)) r = Inl e"
      using r(3) saveSidecar_fails [OF that] by simp
    moreover have "evaluation (applyOutcome ids (runBatch E batch) prev ! i) = g (name (file' c))"
      if "1 < length batch \<and> promiseAll (map (prepare E) batch) = Inr prepared \<and>
          evaluateImageGroup E prepared = Inr g"
      using member_evaluation [of batch E prepared g c prev i ids] that a by blast
    ultimately show ?thesis using r by blast
  qed
  from isolated member show ?thesis by blast
qed

theorem sidecar_failure_swallowed_witness:
  "status (applyOutcome (processingIds exampleBatch)
             (runBatch exampleCollaborators exampleBatch) examplePrev ! 0) = Done \<and>
   evaluation (applyOutcome (processingIds exampleBatch)
             (runBatch exampleCollaborators exampleBatch) examplePrev ! 0) = Some True \<and>
   xmpHandle (applyOutcome (processingIds exampleBatch)
             (runBatch exampleCollaborators exampleBatch) examplePrev ! 0) = None"
proof -
  let ?c = "exampleCandidate 0 ''A.png'' 1000"
  let ?prepared = "[(''A.png'', ''base64'', ''image/jpeg''), (''B.png'', ''base64'', ''image/jpeg'')]"
  let ?g = "map_of (map (\<lambda>(n, b, m). (n, True)) ?prepared)"
  have h1: "1 < length exampleBatch" by (simp add: exampleBatch_def)
  have h2: "promiseAll (map (prepare exampleCollaborators) exampleBatch) = Inr ?prepared"
    by (simp add: exampleBatch_def exampleCollaborators_def prepare_def
        exampleCandidate_def exampleItem_def)
  have h3: "evaluateImageGroup exampleCollaborators ?prepared = Inr ?g"
    by (simp add: exampleCollaborators_def)
  have run: "runBatch exampleCollaborators exampleBatch =
      GroupDone (map (groupUpdate exampleCollaborators ?g) exampleBatch)"
    using h1 h2 h3
    by (simp add: runBatch_def memberUpdate_def groupUpdate_def exampleBatch_def
        exampleCandidate_def exampleItem_def)
  have a1: "\<forall>e. runBatch exampleCollaborators exampleBatch \<noteq> Failed e"
    unfolding run by simp
  have a2: "?c \<in> set exampleBatch" by (simp add: exampleBatch_def)
  have a3: "distinct (map id' examplePrev)" by (simp add: examplePrev_def exampleItem_def)
  have a4: "distinct (map (\<lambda>c. id' (file' c)) exampleBatch)"
    by (simp add: exampleBatch_def exampleCandidate_def exampleItem_def)
  have a5: "0 < length examplePrev" by (simp add: examplePrev_def)
  have a6: "id' (examplePrev ! 0) = id' (file' ?c)"
    by (simp add: examplePrev_def exampleCandidate_def exampleItem_def)
  have a7: "\<forall>d r. \<exists>e. saveXMP exampleCollaborators d (name (file' ?c)) r = Inl e"
    by (simp add: exampleCollaborators_def)
  have a8: "?g (name (file' ?c)) = Some True"
    by (simp add: exampleCandidate_def exampleItem_def)
  from sidecar_failure_swallowed [where E=exampleCollaborators and batch=exampleBatch
      and c="?c" and prev=examplePrev and i=0 and ids="processingIds exampleBatch"
      and prepared="?prepared" and g="?g" and sv="saveXMP exampleCollaborators"]
    a1 a2 a3 a4 a5 a6 a7 a8 h1 h2 h3
  show ?thesis by metis
qed

section \<open>Properties of the scheduler\<close>

lemmas string_defs = isImageName_def endsWith_def toLowerCase_def toLowerCaseChar_def
  baseName_def substring_def char_of_def bit_0 bit_Suc_0_iff

lemma scan1: "scanDirectory (\<lambda>h. Inr None) compareCodeUnits exampleEntries =
   Inr [exampleItem ''A.png'' Pending, exampleItem ''B.png'' Pending]"
  by (simp add: scanDirectory_def exampleEntries_def exampleItem_def string_defs)

lemma ex_state: "exampleInFlight =
  \<lparr>currentDir = Some (), files = [exampleItem ''A.png'' Pending, exampleItem ''B.png'' Pending],
   loadingFiles = False, isProcessing = True,
   filesRef = [exampleItem ''A.png'' Pending, exampleItem ''B.png'' Pending],
   isProcessingRef = True, processingRef = True,
   inFlight = [Detecting [exampleItem ''A.png'' Pending, exampleItem ''B.png'' Pending] 0],
   timeouts = []\<rparr>"
  by (simp add: exampleInFlight_def exampleEvents_def initialState_def scan1
      processDirectory_enter_def processDirectory_finish_def processQueue_enter_def
      exampleItem_def Let_def)

lemma singleFlight_enter: "singleFlight s \<Longrightarrow> singleFlight (processQueue_enter s)"
  by (auto simp: singleFlight_def processQueue_enter_def Let_def split: option.splits)

lemma singleFlight_detect: "singleFlight s \<Longrightarrow> singleFlight (processQueue_detect E k s)"
  by (auto simp: singleFlight_def processQueue_detect_def Let_def split: activation.splits)

lemma singleFlight_finish: "singleFlight s \<Longrightarrow> singleFlight (processQueue_finish E k s)"
  by (auto simp: singleFlight_def processQueue_finish_def Let_def split: activation.splits)

lemma singleFlight_fire: "singleFlight s \<Longrightarrow> singleFlight (fire ev s)"
proof (cases ev)
  case IntervalTick
  assume "singleFlight s"
  with IntervalTick show ?thesis by (simp add: singleFlight_enter)
next
  case TimeoutTick
  assume a: "singleFlight s"
  show ?thesis
  proof (cases "timeouts s")
    case Nil
    with a TimeoutTick show ?thesis by simp
  next
    case (Cons t ts)
    have "singleFlight (s\<lparr>timeouts := ts\<rparr>)" using a by (simp add: singleFlight_def)
    then have "singleFlight (processQueue_enter (s\<lparr>timeouts := ts\<rparr>))"
      by (rule singleFlight_enter)
    with Cons TimeoutTick show ?thesis by simp
  qed
next
  case (DetectionDone k E)
  assume "singleFlight s"
  with DetectionDone show ?thesis by (simp add: singleFlight_detect)
next
  case (BatchDone k E)
  assume "singleFlight s"
  with BatchDone show ?thesis by (simp add: singleFlight_finish)
next
  case Render
  assume "singleFlight s"
  with Render show ?thesis by (simp add: singleFlight_def)
next
  case TogglePause
  assume "singleFlight s"
  with TogglePause show ?thesis by (simp add: singleFlight_def)
next
  case (OpenFolder h)
  assume "singleFlight s"
  with OpenFolder show ?thesis by (simp add: singleFlight_def processDirectory_enter_def)
next
  case (FolderScanned p c es)
  assume "singleFlight s"
  with FolderScanned show ?thesis
    by (simp add: singleFlight_def processDirectory_finish_def split: sum.splits)
next
  case (DeleteFile i)
  assume "singleFlight s"
  with DeleteFile show ?thesis by (simp add: singleFlight_def)
qed

lemma singleFlight_run: "singleFlight s \<Longrightarrow> singleFlight (run evs s)"
  by (induction evs arbitrary: s) (simp_all add: singleFlight_fire)

lemma singleFlight_initial: "singleFlight initialState"
  by (simp add: singleFlight_def initialState_def)

lemma only_finish_clears:
  assumes "processingRef s" "\<not> processingRef (fire ev s)"
  shows "\<exists>k E. ev = BatchDone k E"
proof (cases ev)
  case IntervalTick
  with assms show ?thesis by (simp add: processQueue_enter_def)
next
  case TimeoutTick
  with assms show ?thesis by (simp add: processQueue_enter_def split: list.splits)
next
  case (DetectionDone k E)
  with assms show ?thesis
    by (simp add: processQueue_detect_def Let_def split: if_splits activation.splits)
next
  case (BatchDone k E)
  then show ?thesis by blast
next
  case Render
  with assms show ?thesis by simp
next
  case TogglePause
  with assms show ?thesis by simp
next
  case (OpenFolder h)
  with assms show ?thesis by (simp add: processDirectory_enter_def)
next
  case (FolderScanned p c es)
  with assms show ?thesis by (simp add: processDirectory_finish_def split: sum.splits)
next
  case (DeleteFile i)
  with assms show ?thesis by simp
qed

text \<open>
  Claim C4. In every state the scheduler reaches, at most one activation of
  \<open>processQueue\<close> is in flight and the guard is set exactly then. A call of
  \<open>processQueue\<close> while the guard is set or the processing is paused changes nothing;
  a call that starts an activation sets the guard before anything else is done (no
  item has changed and the activation is at the start of the burst detection). The
  burst detection always goes on to the batch, and the end of the batch clears the
  guard, whatever the collaborators answer or throw. No other event clears the guard.
\<close>

theorem single_flight:
  "length (inFlight (run evs initialState)) \<le> 1 \<and>
   (processingRef (run evs initialState) \<longleftrightarrow> inFlight (run evs initialState) \<noteq> []) \<and>
   (processingRef s \<or> \<not> isProcessingRef s \<longrightarrow> processQueue_enter s = s) \<and>
   (processQueue_enter s \<noteq> s \<longrightarrow>
      processingRef (processQueue_enter s) \<and> files (processQueue_enter s) = files s \<and>
      (\<exists>cf n. inFlight (processQueue_enter s) = inFlight s @ [Detecting cf n])) \<and>
   (k < length (inFlight s) \<and> inFlight s ! k = Detecting cf n \<longrightarrow>
      (\<exists>b. inFlight (processQueue_detect E k s) ! k = Grading b) \<and>
      processingRef (processQueue_detect E k s) = processingRef s) \<and>
   (k < length (inFlight s) \<and> inFlight s ! k = Grading b \<longrightarrow>
      \<not> processingRef (processQueue_finish E k s) \<and>
      length (inFlight (processQueue_finish E k s)) < length (inFlight s)) \<and>
   (processingRef s \<and> \<not> processingRef (fire ev s) \<longrightarrow> (\<exists>j E'. ev = BatchDone j E'))"
proof -
  have "singleFlight (run evs (initialState :: (dirEntry, 'a, 'b, 'c) AppState))"
    using singleFlight_initial by (rule singleFlight_run)
  then have inv: "length (inFlight (run evs (initialState :: (dirEntry, 'a, 'b, 'c) AppState))) \<le> 1"
    "processingRef (run evs (initialState :: (dirEntry, 'a, 'b, 'c) AppState)) \<longleftrightarrow>
     inFlight (run evs (initialState :: (dirEntry, 'a, 'b, 'c) AppState)) \<noteq> []"
    by (simp_all add: singleFlight_def)
  have noop: "processQueue_enter s = s" if "processingRef s \<or> \<not> isProcessingRef s"
    using that by (auto simp: processQueue_enter_def)
  have start: "processingRef (processQueue_enter s) \<and> files (processQueue_enter s) = files s \<and>
      (\<exists>cf n. inFlight (processQueue_enter s) = inFlight s @ [Detecting cf n])"
    if "processQueue_enter s \<noteq> s"
    using that by (auto simp: processQueue_enter_def Let_def split: option.splits if_splits)
  have detect: "(\<exists>b. inFlight (processQueue_detect E k s) ! k = Grading b) \<and>
      processingRef (processQueue_detect E k s) = processingRef s"
    if "k < length (inFlight s) \<and> inFlight s ! k = Detecting cf n"
    using that by (simp add: processQueue_detect_def Let_def)
  have finish: "\<not> processingRef (processQueue_finish E k s) \<and>
      length (inFlight (processQueue_finish E k s)) < length (inFlight s)"
    if "k < length (inFlight s) \<and> inFlight s ! k = Grading b"
    using that by (auto simp: processQueue_finish_def)
  have only: "\<exists>j E'. ev = BatchDone j E'" if "processingRef s \<and> \<not> processingRef (fire ev s)"
    using that only_finish_clears by blast
  from inv noop start detect finish only show ?thesis by blast
qed

theorem single_flight_witness:
  "processingRef exampleInFlight \<and> length (inFlight exampleInFlight) \<le> 1 \<and>
   processQueue_enter exampleInFlight = exampleInFlight \<and>
   inFlight exampleInFlight ! 0 =
     Detecting [exampleItem ''A.png'' Pending, exampleItem ''B.png'' Pending] 0 \<and>
   processingRef (processQueue_detect exampleCollaborators 0 exampleInFlight)"
proof -
  have p: "processingRef exampleInFlight" by (simp add: ex_state)
  have d: "0 < length (inFlight exampleInFlight) \<and> inFlight exampleInFlight ! 0 =
     Detecting [exampleItem ''A.png'' Pending, exampleItem ''B.png'' Pending] 0"
    by (simp add: ex_state)
  from single_flight [where evs=exampleEvents and s=exampleInFlight and k=0
      and cf="[exampleItem ''A.png'' Pending, exampleItem ''B.png'' Pending]" and n=0
      and E=exampleCollaborators] p d
  show ?thesis unfolding exampleInFlight_def by blast
qed

text \<open>
  Claim C9, as the claim states it, fails: in the state with one activation in flight
  the guard is set and the backlog is not empty, and opening a folder empties the
  backlog.
\<close>

theorem backlog_guard_counterexample:
  "processingRef exampleInFlight \<and> inFlight exampleInFlight \<noteq> [] \<and>
   files exampleInFlight \<noteq> [] \<and>
   files (fire (OpenFolder ()) exampleInFlight) \<noteq> files exampleInFlight"
  by (simp add: ex_state processDirectory_enter_def)

text \<open>
  Claim C9, amended. \<open>processDirectory\<close> does not look at the guard: it empties the
  backlog at once and replaces it with the scanned one when the scan succeeds,
  whether or not an activation is in flight; the guard and the activations in flight
  are left as they are.
\<close>

theorem backlog_replaced_regardless:
  "files (processDirectory_enter h s) = [] \<and>
   processingRef (processDirectory_enter h s) = processingRef s \<and>
   inFlight (processDirectory_enter h s) = inFlight s \<and>
   files (processDirectory_finish parseXMP localeCompare entries s) =
     (case scanDirectory parseXMP localeCompare entries of
        Inl e \<Rightarrow> files s | Inr imageFiles \<Rightarrow> imageFiles) \<and>
   processingRef (processDirectory_finish parseXMP localeCompare entries s) = processingRef s \<and>
   inFlight (processDirectory_finish parseXMP localeCompare entries s) = inFlight s"
  by (simp add: processDirectory_enter_def processDirectory_finish_def split: sum.splits)

theorem backlog_replaced_regardless_witness:
  "files (processDirectory_enter () exampleInFlight) = [] \<and>
   processingRef (processDirectory_enter () exampleInFlight) \<and>
   files (processDirectory_finish (\<lambda>h. Inr None) compareCodeUnits exampleEntries
            (processDirectory_enter () exampleInFlight)) =
     [exampleItem ''A.png'' Pending, exampleItem ''B.png'' Pending]"
proof -
  have p: "processingRef exampleInFlight" by (simp add: ex_state)
  from backlog_replaced_regardless [of "()" exampleInFlight]
    backlog_replaced_regardless [of _ "processDirectory_enter () exampleInFlight"
      "\<lambda>h. Inr None" compareCodeUnits exampleEntries] p
  show ?thesis by (simp add: scan1)
qed

text \<open>
  Claim C10. When reading the first pending item throws, in \<open>getFile\<close> or in the
  timestamp, the burst detection ends with an empty batch. The pass then marks no
  item; the empty batch fails with the \<open>TypeError\<close> of line 178, the error update
  applies to no id, so the items are as before and the item stays pending; the guard
  is cleared and the timeout of 500 ms is set.
\<close>

theorem first_read_failure:
  assumes "nextFileIndex < length currentFiles"
    and "getFile E (handle (currentFiles ! nextFileIndex)) = Inl e \<or>
         (\<exists>fo. getFile E (handle (currentFiles ! nextFileIndex)) = Inr fo \<and>
               getDateTaken E fo = Inl e)"
    and "inFlight s = [Detecting currentFiles nextFileIndex]"
  shows "burstDetection E currentFiles nextFileIndex = ([], Some e) \<and>
         files (processQueue_detect E 0 s) = files s \<and>
         inFlight (processQueue_detect E 0 s) = [Grading []] \<and>
         runBatch E' ([] :: ('h, 'e, 'f) candidate list) = Failed TypeError \<and>
         applyOutcome (processingIds ([] :: ('h, 'e, 'f) candidate list))
           (runBatch E' []) (files s) = files s \<and>
         files (processQueue_finish E' 0 (processQueue_detect E 0 s)) = files s \<and>
         \<not> processingRef (processQueue_finish E' 0 (processQueue_detect E 0 s)) \<and>
         inFlight (processQueue_finish E' 0 (processQueue_detect E 0 s)) = [] \<and>
         timeouts (processQueue_finish E' 0 (processQueue_detect E 0 s)) = timeouts s @ [500]"
proof -
  have b: "burstDetection E currentFiles nextFileIndex = ([], Some e)"
    using assms(1,2) by (auto simp: burstDetection_def)
  have mark: "markProcessing {} fs = fs" for fs :: "('h, 'e) ImageFile list"
    by (simp add: markProcessing_def)
  have d: "processQueue_detect E 0 s =
      s\<lparr>files := files s, inFlight := [Grading []]\<rparr>"
    using assms(3) b by (simp add: processQueue_detect_def processingIds_def mark)
  have r: "runBatch E' ([] :: ('h, 'e, 'f) candidate list) = Failed TypeError"
    by (simp add: runBatch_def)
  have a: "applyOutcome {} (Failed TypeError) fs = fs" for fs :: "('h, 'e) ImageFile list"
    by simp
  have f: "processQueue_finish E' 0 (processQueue_detect E 0 s) =
      s\<lparr>files := files s, processingRef := False, inFlight := [],
        timeouts := timeouts s @ [500]\<rparr>"
    unfolding d by (simp add: processQueue_finish_def processingIds_def r)
  show ?thesis
    unfolding f unfolding d using b r by (simp add: processingIds_def)
qed

theorem first_read_failure_witness:
  "burstDetection exampleUnreadable
     [exampleItem ''A.png'' Pending, exampleItem ''B.png'' Pending] 0 =
     ([], Some (Rejected (Some ''NotFoundError''))) \<and>
   files (processQueue_finish exampleUnreadable 0
            (processQueue_detect exampleUnreadable 0 exampleInFlight)) =
     [exampleItem ''A.png'' Pending, exampleItem ''B.png'' Pending] \<and>
   timeouts (processQueue_finish exampleUnreadable 0
            (processQueue_detect exampleUnreadable 0 exampleInFlight)) = [500]"
proof -
  let ?cf = "[exampleItem ''A.png'' Pending, exampleItem ''B.png'' Pending]"
  have h1: "0 < length ?cf" by simp
  have h2: "getFile exampleUnreadable (handle (?cf ! 0)) = Inl (Rejected (Some ''NotFoundError'')) \<or>
         (\<exists>fo. getFile exampleUnreadable (handle (?cf ! 0)) = Inr fo \<and>
               getDateTaken exampleUnreadable fo = Inl (Rejected (Some ''NotFoundError'')))"
    by (simp add: exampleUnreadable_def)
  have h3: "inFlight exampleInFlight = [Detecting ?cf 0]" by (simp add: ex_state)
  have f: "files exampleInFlight = ?cf" "timeouts exampleInFlight = []"
    by (simp_all add: ex_state)
  from first_read_failure [OF h1 h2 h3, of exampleUnreadable] f
  show ?thesis by simp
qed

section \<open>Properties of the ingestion\<close>

lemma collectImages_names:
  "collectImages parseXMP xm entries = Inr fs \<Longrightarrow>
   map name fs = map entryName (filter isImageEntry entries) \<and> (\<forall>f\<in>set fs. id' f = name f)"
proof (induction entries arbitrary: fs)
  case Nil
  then show ?case by simp
next
  case (Cons entry rest)
  show ?case
  proof (cases "isImageEntry entry")
    case False
    then have "collectImages parseXMP xm (entry # rest) = collectImages parseXMP xm rest"
      by (auto simp: isImageEntry_def)
    with Cons.prems have "collectImages parseXMP xm rest = Inr fs" by simp
    from Cons.IH [OF this] False show ?thesis by simp
  next
    case True
    then have c: "kind entry = FileKind \<and> isImageName (toLowerCase (entryName entry))"
      by (simp add: isImageEntry_def)
    with Cons.prems obtain parsed fs' where
      f: "collectImages parseXMP xm rest = Inr fs'"
      "fs = \<lparr>id' = entryName entry, handle = entry, name = entryName entry,
              type' = ''image'', status = (if parsed = None then Pending else Done),
              evaluation = parsed, errorMessage = None,
              xmpHandle = xm (toLowerCase (baseName (entryName entry)))\<rparr> # fs'"
      by (auto simp: Let_def split: sum.splits)
    from Cons.IH [OF f(1)] True f(2) show ?thesis by simp
  qed
qed

lemma set_insertBy: "set (insertBy cmp x ys) = insert x (set ys)"
  by (induction ys) auto

lemma length_insertBy: "length (insertBy cmp x ys) = Suc (length ys)"
  by (induction ys) auto

lemma distinct_map_insertBy:
  "distinct (map f (insertBy cmp x ys)) \<longleftrightarrow> f x \<notin> f ` set ys \<and> distinct (map f ys)"
  by (induction ys) (auto simp: set_insertBy)

lemma set_sortBy: "set (sortBy cmp xs) = set xs"
  by (induction xs) (auto simp: set_insertBy)

lemma length_sortBy: "length (sortBy cmp xs) = length xs"
  by (induction xs) (auto simp: length_insertBy)

lemma distinct_map_sortBy: "distinct (map f (sortBy cmp xs)) \<longleftrightarrow> distinct (map f xs)"
  by (induction xs) (auto simp: distinct_map_insertBy set_sortBy)

text \<open>
  Claim C8, as the claim states it, fails: a folder that holds \<open>a.png\<close> and \<open>a.jpg\<close>
  gives a backlog of two items with the one base name \<open>a\<close>.
\<close>

theorem one_item_per_base_name_counterexample:
  "scanDirectory exampleNoSidecar compareCodeUnits exampleSameBase =
     Inr [exampleItem ''a.jpg'' Pending, exampleItem ''a.png'' Pending] \<and>
   baseNames [exampleItem ''a.jpg'' Pending, exampleItem ''a.png'' Pending] = [''a'', ''a''] \<and>
   \<not> distinct (baseNames [exampleItem ''a.jpg'' Pending, exampleItem ''a.png'' Pending])"
  by (simp add: scanDirectory_def exampleSameBase_def exampleNoSidecar_def exampleItem_def
      baseNames_def string_defs)

text \<open>
  Claim C8, amended. The backlog of a successful scan has exactly one item per image
  file of the folder (a file whose lower-cased name ends in .jpg, .jpeg, .png or
  .webp): as many items as image files, with the same names, each with its file name
  as id; since the names in a folder are distinct, so are the names and the ids of
  the items.
\<close>

theorem one_item_per_image_file:
  assumes "scanDirectory parseXMP localeCompare entries = Inr backlog"
  shows "length backlog = length (filter isImageEntry entries) \<and>
         set (map name backlog) = set (map entryName (filter isImageEntry entries)) \<and>
         (\<forall>f\<in>set backlog. id' f = name f) \<and>
         (distinct (map entryName entries) \<longrightarrow>
            distinct (map name backlog) \<and> distinct (map id' backlog))"
proof -
  from assms obtain fs where
    fs: "collectImages parseXMP (collectXmp Map.empty entries) entries = Inr fs"
    and b: "backlog = sortBy (\<lambda>a b. localeCompare (name a) (name b)) fs"
    by (auto simp: scanDirectory_def split: sum.splits)
  from collectImages_names [OF fs] have
    n: "map name fs = map entryName (filter isImageEntry entries)"
    and i: "\<forall>f\<in>set fs. id' f = name f"
    by auto
  have i': "map id' fs = map name fs" using i by simp
  have len: "length backlog = length (filter isImageEntry entries)"
    unfolding b length_sortBy using n by (metis length_map)
  have st: "set (map name backlog) = set (map entryName (filter isImageEntry entries))"
  proof -
    have "set (map name backlog) = set (map name fs)"
      unfolding b by (simp add: set_sortBy)
    then show ?thesis unfolding n .
  qed
  have ids: "\<forall>f\<in>set backlog. id' f = name f"
    unfolding b using i by (simp add: set_sortBy)
  have d: "distinct (map name backlog) \<and> distinct (map id' backlog)"
    if "distinct (map entryName entries)"
  proof -
    have "distinct (map entryName (filter isImageEntry entries))"
      using that by (simp add: distinct_map_filter)
    then have "distinct (map name fs)" unfolding n .
    then show ?thesis unfolding b distinct_map_sortBy i' by simp
  qed
  from len st ids d show ?thesis by blast
qed

theorem one_item_per_image_file_witness:
  "distinct (map id' [exampleItem ''a.jpg'' Pending, exampleItem ''a.png'' Pending]) \<and>
   length [exampleItem ''a.jpg'' Pending, exampleItem ''a.png'' Pending] =
     length (filter isImageEntry exampleSameBase)"
proof -
  have h: "scanDirectory exampleNoSidecar compareCodeUnits exampleSameBase =
     Inr [exampleItem ''a.jpg'' Pending, exampleItem ''a.png'' Pending]"
    by (simp add: scanDirectory_def exampleSameBase_def exampleNoSidecar_def exampleItem_def
        string_defs)
  have d: "distinct (map entryName exampleSameBase)"
    by (simp add: exampleSameBase_def)
  from one_item_per_image_file [OF h] d show ?thesis by blast
qed

section \<open>Properties of the timestamp extractor\<close>

declare walkEntries.simps [simp del] scanSegments.simps [simp del]

lemma getUint8_thrown: "getUint8 view i = Inl e \<Longrightarrow> e = RangeError"
  by (simp add: getUint8_def split: if_splits)

lemma getUint16_thrown: "getUint16 view i le = Inl e \<Longrightarrow> e = RangeError"
  by (simp add: getUint16_def Let_def split: if_splits)

lemma getUint32_thrown: "getUint32 view i le = Inl e \<Longrightarrow> e = RangeError"
  by (simp add: getUint32_def Let_def split: if_splits)

lemma readChars_thrown: "readChars view off n = Inl e \<Longrightarrow> e = RangeError"
  by (induction n arbitrary: off) (auto split: sum.splits dest: getUint8_thrown)

lemma readChars_length: "readChars view off n = Inr s \<Longrightarrow> length s = n"
  by (induction n arbitrary: off s) (auto split: sum.splits)

lemma entryResult_thrown:
  "entryResult D view ts le ds i = Inl e \<Longrightarrow> e = RangeError"
  by (auto simp: entryResult_def Let_def split: sum.splits if_splits
      dest: getUint16_thrown getUint32_thrown readChars_thrown)

lemma entryResult_Some:
  "entryResult D view ts le ds i = Inr (Some t) \<Longrightarrow>
   \<exists>s. length s = 19 \<and> D (formatDate s) = Some t"
  by (auto simp: entryResult_def Let_def split: sum.splits if_splits dest: readChars_length)

lemma walkEntries_step:
  "i < n \<Longrightarrow> walkEntries D view ts le ds n i =
     (case entryResult D view ts le ds i of
        Inl e \<Rightarrow> Inl e
      | Inr (Some t) \<Rightarrow> Inr (Some t)
      | Inr None \<Rightarrow> walkEntries D view ts le ds n (i + 1))"
  by (subst walkEntries.simps) simp

lemma walkEntries_end: "\<not> i < n \<Longrightarrow> walkEntries D view ts le ds n i = Inr None"
  by (subst walkEntries.simps) simp

lemma walkEntries_skip:
  "i0 \<le> i \<Longrightarrow> i \<le> n \<Longrightarrow> \<forall>j. i0 \<le> j \<and> j < i \<longrightarrow> entryResult D view ts le ds j = Inr None \<Longrightarrow>
   walkEntries D view ts le ds n i0 = walkEntries D view ts le ds n i"
proof (induction "i - i0" arbitrary: i0)
  case 0
  then show ?case by simp
next
  case (Suc k)
  then have "i0 < n" "i0 < i" by auto
  then have "entryResult D view ts le ds i0 = Inr None" using Suc.prems by simp
  then have "walkEntries D view ts le ds n i0 = walkEntries D view ts le ds n (i0 + 1)"
    using \<open>i0 < n\<close> by (simp add: walkEntries_step)
  also have "\<dots> = walkEntries D view ts le ds n i"
    using Suc.hyps(1) [of "i0 + 1"] Suc.hyps(2) Suc.prems \<open>i0 < i\<close> by simp
  finally show ?case .
qed

lemma walkEntries_result:
  "walkEntries D view ts le ds n i = Inr None \<or>
   (\<exists>j. i \<le> j \<and> j < n \<and> walkEntries D view ts le ds n i = entryResult D view ts le ds j \<and>
        entryResult D view ts le ds j \<noteq> Inr None)"
proof (induction "n - i" arbitrary: i)
  case 0
  then show ?case by (simp add: walkEntries_end)
next
  case (Suc k)
  then have i: "i < n" by simp
  show ?case
  proof (cases "entryResult D view ts le ds i = Inr None")
    case True
    then have w: "walkEntries D view ts le ds n i = walkEntries D view ts le ds n (i + 1)"
      using i by (simp add: walkEntries_step)
    have "k = n - (i + 1)" using Suc.hyps(2) by simp
    from Suc.hyps(1) [OF this]
    consider "walkEntries D view ts le ds n (i + 1) = Inr None"
      | j where "i + 1 \<le> j" "j < n"
          "walkEntries D view ts le ds n (i + 1) = entryResult D view ts le ds j"
          "entryResult D view ts le ds j \<noteq> Inr None"
      by blast
    then show ?thesis
    proof cases
      case 1
      then show ?thesis unfolding w by simp
    next
      case 2
      then have "i \<le> j" by simp
      with 2 show ?thesis unfolding w by blast
    qed
  next
    case False
    then have "walkEntries D view ts le ds n i = entryResult D view ts le ds i"
      using i by (auto simp: walkEntries_step split: sum.splits option.splits)
    with False i show ?thesis by blast
  qed
qed

lemma walkEntries_thrown: "walkEntries D view ts le ds n i = Inl e \<Longrightarrow> e = RangeError"
  using walkEntries_result [of D view ts le ds n i] entryResult_thrown by fastforce

lemma walkEntries_Some:
  "walkEntries D view ts le ds n i = Inr (Some t) \<Longrightarrow>
   \<exists>s. length s = 19 \<and> D (formatDate s) = Some t"
  using walkEntries_result [of D view ts le ds n i] entryResult_Some by fastforce


lemma scanSegments_unfold:
  assumes "scanSegments D view off = r"
  shows "r = Inr None \<or> r = Inl RangeError \<or>
     (\<exists>ts le ds n. r = walkEntries D view ts le ds n 0 \<and> r \<noteq> Inr None) \<or>
     (\<exists>off'. off < length view \<and> off + 2 \<le> off' \<and> r = scanSegments D view off')"
proof (cases "off < length view")
  case False
  with assms show ?thesis by (subst (asm) scanSegments.simps) simp
next
  case True
  note inb = True
  show ?thesis
  proof (cases "getUint16 view off False")
    case (Inl e)
    with assms inb getUint16_thrown [OF Inl] show ?thesis
      by (subst (asm) scanSegments.simps) simp
  next
    case marker: (Inr marker)
    show ?thesis
    proof (cases "marker = 0xFFE1")
      case False
      show ?thesis
      proof (cases "marker AND 0xFF00 \<noteq> 0xFF00")
        case True
        with assms inb marker False show ?thesis
          by (subst (asm) scanSegments.simps) (simp add: Let_def)
      next
        case valid: False
        show ?thesis
        proof (cases "getUint16 view (off + 2) False")
          case (Inl e)
          with assms inb marker False valid getUint16_thrown [OF Inl] show ?thesis
            by (subst (asm) scanSegments.simps) (simp add: Let_def)
        next
          case (Inr len)
          with assms inb marker False valid
          have "r = scanSegments D view (off + 2 + len)"
            by (subst (asm) scanSegments.simps) (simp add: Let_def)
          moreover have "off + 2 \<le> off + 2 + len" by simp
          ultimately show ?thesis using inb by blast
        qed
      qed
    next
      case app1: True
      show ?thesis
      proof (cases "getUint16 view (off + 2) False")
        case (Inl e)
        with assms inb marker app1 getUint16_thrown [OF Inl] show ?thesis
          by (subst (asm) scanSegments.simps) (simp add: Let_def)
      next
        case len: (Inr app1Length)
        show ?thesis
        proof (cases "getUint32 view (off + 2 + 2) False")
          case (Inl e)
          with assms inb marker app1 len getUint32_thrown [OF Inl] show ?thesis
            by (subst (asm) scanSegments.simps) (simp add: Let_def)
        next
          case sig: (Inr signature)
          show ?thesis
          proof (cases "signature = 0x45786966")
            case False
            with assms inb marker app1 len sig
            have "r = scanSegments D view (off + 2 + app1Length)"
              by (subst (asm) scanSegments.simps) (simp add: Let_def)
            moreover have "off + 2 \<le> off + 2 + app1Length" by simp
            ultimately show ?thesis using inb by blast
          next
            case exif: True
            show ?thesis
            proof (cases "getUint16 view (off + 2 + 8) False")
              case (Inl e)
              with assms inb marker app1 len sig exif getUint16_thrown [OF Inl] show ?thesis
                by (subst (asm) scanSegments.simps) (simp add: Let_def)
            next
              case bo: (Inr byteOrder)
              show ?thesis
              proof (cases "getUint16 view (off + 2 + 8 + 2) (byteOrder = 0x4949)")
                case (Inl e)
                with assms inb marker app1 len sig exif bo getUint16_thrown [OF Inl]
                show ?thesis
                  by (subst (asm) scanSegments.simps) (simp add: Let_def)
              next
                case magic: (Inr magic)
                show ?thesis
                proof (cases "magic \<noteq> 0x002A")
                  case True
                  with assms inb marker app1 len sig exif bo magic show ?thesis
                    by (subst (asm) scanSegments.simps) (simp add: Let_def)
                next
                  case tiff: False
                  show ?thesis
                  proof (cases "getUint32 view (off + 2 + 8 + 4) (byteOrder = 0x4949)")
                    case (Inl e)
                    with assms inb marker app1 len sig exif bo magic tiff
                      getUint32_thrown [OF Inl]
                    show ?thesis
                      by (subst (asm) scanSegments.simps) (simp add: Let_def)
                  next
                    case ifd: (Inr firstIFDOffset)
                    show ?thesis
                    proof (cases "firstIFDOffset < 8")
                      case True
                      with assms inb marker app1 len sig exif bo magic tiff ifd show ?thesis
                        by (subst (asm) scanSegments.simps) (simp add: Let_def)
                    next
                      case plausible: False
                      show ?thesis
                      proof (cases "getUint16 view (off + 2 + 8 + firstIFDOffset)
                                      (byteOrder = 0x4949)")
                        case (Inl e)
                        with assms inb marker app1 len sig exif bo magic tiff ifd plausible
                          getUint16_thrown [OF Inl]
                        show ?thesis
                          by (subst (asm) scanSegments.simps) (simp add: Let_def)
                      next
                        case n: (Inr entries)
                        let ?w = "walkEntries D view (off + 2 + 8) (byteOrder = 0x4949)
                                    (off + 2 + 8 + firstIFDOffset) entries 0"
                        from assms inb marker app1 len sig exif bo magic tiff ifd plausible n
                        have r: "r = (case ?w of Inl e \<Rightarrow> Inl e | Inr (Some t) \<Rightarrow> Inr (Some t)
                                     | Inr None \<Rightarrow> scanSegments D view (off + 2 + app1Length))"
                          by (subst (asm) scanSegments.simps)
                             (auto simp: Let_def split: sum.splits option.splits)
                        show ?thesis
                        proof (cases "?w = Inr None")
                          case True
                          with r have "r = scanSegments D view (off + 2 + app1Length)" by simp
                          moreover have "off + 2 \<le> off + 2 + app1Length" by simp
                          ultimately show ?thesis using inb by blast
                        next
                          case False
                          with r have "r = ?w"
                            by (auto split: sum.splits option.splits)
                          with False show ?thesis by blast
                        qed
                      qed
                    qed
                  qed
                qed
              qed
            qed
          qed
        qed
      qed
    qed
  qed
qed


lemma scanSegments_thrown: "scanSegments D view off = Inl e \<Longrightarrow> e = RangeError"
proof (induction "length view - off" arbitrary: off rule: less_induct)
  case less
  from scanSegments_unfold [OF less.prems]
  consider "Inl e = (Inl RangeError :: thrown + int option)"
    | ts le ds n where "Inl e = walkEntries D view ts le ds n 0"
    | off' where "off < length view" "off + 2 \<le> off'" "Inl e = scanSegments D view off'"
    by blast
  then show ?case
  proof cases
    case 1
    then show ?thesis by simp
  next
    case 2
    then show ?thesis using walkEntries_thrown [of D view ts le ds n 0 e] by simp
  next
    case 3
    then have "length view - off' < length view - off" by simp
    from less.hyps [OF this] 3(3) show ?thesis by simp
  qed
qed

lemma scanSegments_Some:
  "scanSegments D view off = Inr (Some t) \<Longrightarrow> \<exists>s. length s = 19 \<and> D (formatDate s) = Some t"
proof (induction "length view - off" arbitrary: off rule: less_induct)
  case less
  from scanSegments_unfold [OF less.prems]
  consider ts le ds n where "Inr (Some t) = walkEntries D view ts le ds n 0"
    | off' where "off < length view" "off + 2 \<le> off'" "Inr (Some t) = scanSegments D view off'"
    by blast
  then show ?case
  proof cases
    case 1
    then show ?thesis using walkEntries_Some [of D view ts le ds n 0 t] by simp
  next
    case 2
    then have "length view - off' < length view - off" by simp
    from less.hyps [OF this] 2(3) show ?thesis by simp
  qed
qed

lemma parseExif_thrown: "parseExif D view = Inl e \<Longrightarrow> e = RangeError"
  by (auto simp: parseExif_def split: sum.splits if_splits
      dest: getUint16_thrown scanSegments_thrown)

lemma parseExif_Some:
  "parseExif D view = Inr (Some t) \<Longrightarrow> \<exists>s. length s = 19 \<and> D (formatDate s) = Some t"
  by (auto simp: parseExif_def split: sum.splits if_splits dest: scanSegments_Some)

lemma getDateTaken_cases:
  "getDateTaken' D f = lastModified f \<or>
   (\<exists>s. length s = 19 \<and> D (formatDate s) = Some (getDateTaken' D f))"
  by (auto simp: getDateTaken'_def split: option.splits sum.splits dest: parseExif_Some)

lemma scanSegments_invalid_marker:
  assumes "off < length view" "getUint16 view off False = Inr marker"
    "marker \<noteq> 0xFFE1" "marker AND 0xFF00 \<noteq> 0xFF00"
  shows "scanSegments D view off = Inr None"
  using assms by (subst scanSegments.simps) (simp add: Let_def)

lemma scanSegments_other_app1:
  assumes "off < length view" "getUint16 view off False = Inr 0xFFE1"
    "getUint16 view (off + 2) False = Inr app1Length"
    "getUint32 view (off + 4) False = Inr signature" "signature \<noteq> 0x45786966"
  shows "scanSegments D view off = scanSegments D view (off + 2 + app1Length)"
proof -
  have e: "off + 2 + 2 = off + 4" by simp
  have a: "getUint32 view (off + 2 + 2) False = Inr signature"
    by (simp only: e assms(4))
  show ?thesis
    using assms(1,2,3,5) a by (subst scanSegments.simps) (simp add: Let_def)
qed

lemma scanSegments_past_end: "length view \<le> off \<Longrightarrow> scanSegments D view off = Inr None"
  by (subst scanSegments.simps) simp

lemma scanSegments_exif:
  assumes "off < length view" "getUint16 view off False = Inr 0xFFE1"
    "getUint16 view (off + 2) False = Inr app1Length"
    "getUint32 view (off + 4) False = Inr 0x45786966"
    "getUint16 view (off + 10) False = Inr byteOrder"
    "getUint16 view (off + 12) (byteOrder = 0x4949) = Inr 0x002A"
    "getUint32 view (off + 14) (byteOrder = 0x4949) = Inr firstIFDOffset"
    "8 \<le> firstIFDOffset"
    "getUint16 view (off + 10 + firstIFDOffset) (byteOrder = 0x4949) = Inr entries"
  shows "scanSegments D view off =
     (case walkEntries D view (off + 10) (byteOrder = 0x4949) (off + 10 + firstIFDOffset)
             entries 0 of
        Inl e \<Rightarrow> Inl e
      | Inr (Some t) \<Rightarrow> Inr (Some t)
      | Inr None \<Rightarrow> scanSegments D view (off + 2 + app1Length))"
proof -
  have e: "off + 2 + 2 = off + 4" "off + 2 + 8 = off + 10" "off + 10 + 2 = off + 12"
    "off + 10 + 4 = off + 14"
    by simp_all
  have a: "getUint32 view (off + 2 + 2) False = Inr 0x45786966"
    "getUint16 view (off + 2 + 8) False = Inr byteOrder"
    "getUint16 view (off + 2 + 8 + 2) (byteOrder = 0x4949) = Inr 0x002A"
    "getUint32 view (off + 2 + 8 + 4) (byteOrder = 0x4949) = Inr firstIFDOffset"
    "getUint16 view (off + 2 + 8 + firstIFDOffset) (byteOrder = 0x4949) = Inr entries"
    by (simp_all only: e assms)
  have w: "walkEntries D view (off + 2 + 8) (byteOrder = 0x4949)
             (off + 2 + 8 + firstIFDOffset) entries 0 =
           walkEntries D view (off + 10) (byteOrder = 0x4949) (off + 10 + firstIFDOffset)
             entries 0"
    by (simp only: e)
  have "scanSegments D view off =
     (case walkEntries D view (off + 2 + 8) (byteOrder = 0x4949)
             (off + 2 + 8 + firstIFDOffset) entries 0 of
        Inl e \<Rightarrow> Inl e
      | Inr (Some t) \<Rightarrow> Inr (Some t)
      | Inr None \<Rightarrow> scanSegments D view (off + 2 + app1Length))"
    using assms(1,2,3,8) a
    by (subst scanSegments.simps) (auto simp: Let_def split: sum.splits option.splits)
  then show ?thesis unfolding w .
qed

lemma formatDate_normalises:
  assumes "length y = 4" "list_all isDigit y" "length m = 2" "list_all isDigit m"
    "length d = 2" "list_all isDigit d"
  shows "formatDate (y @ '':'' @ m @ '':'' @ d @ rest) = y @ ''/'' @ m @ ''/'' @ d @ rest"
  using assms by (simp add: formatDate_def nth_append)


lemma readChars_eq:
  "readChars view off n =
     (if n = 0 \<or> off + n \<le> length view
      then Inr (map (\<lambda>b. char_of (unat b)) (take n (drop off view)))
      else Inl RangeError)"
proof (induction n arbitrary: off)
  case 0
  then show ?case by simp
next
  case (Suc n)
  show ?case
  proof (cases "off + 1 \<le> length view")
    case False
    then show ?thesis by (simp add: getUint8_def)
  next
    case True
    then have d: "drop off view = view ! off # drop (off + 1) view"
      by (simp add: Cons_nth_drop_Suc)
    show ?thesis
      using True Suc.IH [of "off + 1"] by (auto simp: getUint8_def d)
  qed
qed

lemmas view_defs = getUint8_def getUint16_def getUint32_def nth_append Let_def readChars_eq

lemmas exif_defs = parseExif_def scanSegments.simps walkEntries.simps entryResult_def
  view_defs formatDate_def isDigit_def exampleParseDate_def char_of_def bit_0 bit_Suc_0_iff

lemma parse_beyond_cutoff:
  "parseExif exampleParseDate (take 65536 exampleBeyondCutoffBytes) = Inl RangeError"
  by (simp add: exampleBeyondCutoffBytes_def exif_defs)

lemma parse_whole_file:
  "parseExif exampleParseDate exampleBeyondCutoffBytes = Inr (Some 1698244200000)"
  by (simp add: exampleBeyondCutoffBytes_def exif_defs)

lemma parse_two_dates:
  "parseExif exampleParseDate (take 65536 exampleTwoDatesBytes) = Inr (Some 1698244200000)"
  by (simp add: exampleTwoDatesBytes_def exif_defs)

text \<open>
  Claim C5. \<open>getDateTaken\<close> always resolves, and with \<open>lastModified\<close> unless it has read
  a date: for a type other than image/jpeg and image/jpg; when the file cannot be
  read; when anything is thrown while parsing, which can only be a read outside the
  bytes that were read (at most the first 65536); when the parse ends without a date.
  In particular a missing start-of-image marker and an invalid marker end the parse
  without a date, a read that does not fit the buffer throws, and so does a segment
  that is not Exif and whose declared length runs past the buffer. The only other
  result is the timestamp of a date string of 19 characters.
\<close>

theorem extractor_never_fails:
  "(fileType f \<noteq> ''image/jpeg'' \<and> fileType f \<noteq> ''image/jpg'' \<longrightarrow>
      getDateTaken' D f = lastModified f) \<and>
   (content f = None \<longrightarrow> getDateTaken' D f = lastModified f) \<and>
   (content f = Some bytes \<and> parseExif D (take 65536 bytes) = Inl e \<longrightarrow>
      e = RangeError \<and> getDateTaken' D f = lastModified f) \<and>
   (content f = Some bytes \<and> parseExif D (take 65536 bytes) = Inr None \<longrightarrow>
      getDateTaken' D f = lastModified f) \<and>
   (getDateTaken' D f = lastModified f \<or>
      (\<exists>s. length s = 19 \<and> D (formatDate s) = Some (getDateTaken' D f))) \<and>
   (getUint16 view 0 False = Inr soi \<and> soi \<noteq> 0xFFD8 \<longrightarrow> parseExif D view = Inr None) \<and>
   (off < length view \<and> getUint16 view off False = Inr marker \<and> marker \<noteq> 0xFFE1 \<and>
    marker AND 0xFF00 \<noteq> 0xFF00 \<longrightarrow> scanSegments D view off = Inr None) \<and>
   (length view < i + 1 \<longrightarrow> getUint8 view i = Inl RangeError) \<and>
   (length view < i + 2 \<longrightarrow> getUint16 view i le = Inl RangeError) \<and>
   (length view < i + 4 \<longrightarrow> getUint32 view i le = Inl RangeError) \<and>
   (off < length view \<and> getUint16 view off False = Inr 0xFFE1 \<and>
    getUint16 view (off + 2) False = Inr app1Length \<and>
    getUint32 view (off + 4) False = Inr signature \<and> signature \<noteq> 0x45786966 \<and>
    length view \<le> off + 2 + app1Length \<longrightarrow> scanSegments D view off = Inr None)"
proof -
  have mime: "getDateTaken' D f = lastModified f"
    if "fileType f \<noteq> ''image/jpeg'' \<and> fileType f \<noteq> ''image/jpg''"
    using that by (simp add: getDateTaken'_def)
  have unread: "getDateTaken' D f = lastModified f" if "content f = None"
    using that by (simp add: getDateTaken'_def)
  have thrown: "e = RangeError \<and> getDateTaken' D f = lastModified f"
    if "content f = Some bytes \<and> parseExif D (take 65536 bytes) = Inl e"
    using that parseExif_thrown [of D "take 65536 bytes" e] by (simp add: getDateTaken'_def)
  have nodate: "getDateTaken' D f = lastModified f"
    if "content f = Some bytes \<and> parseExif D (take 65536 bytes) = Inr None"
    using that by (simp add: getDateTaken'_def)
  have soi: "parseExif D view = Inr None" if "getUint16 view 0 False = Inr soi \<and> soi \<noteq> 0xFFD8"
    using that by (simp add: parseExif_def)
  have marker: "scanSegments D view off = Inr None"
    if "off < length view \<and> getUint16 view off False = Inr marker \<and> marker \<noteq> 0xFFE1 \<and>
        marker AND 0xFF00 \<noteq> 0xFF00"
    using that scanSegments_invalid_marker [of off view marker D] by blast
  have r8: "getUint8 view i = Inl RangeError" if "length view < i + 1"
    using that by (simp add: getUint8_def)
  have r16: "getUint16 view i le = Inl RangeError" if "length view < i + 2"
    using that by (simp add: getUint16_def)
  have r32: "getUint32 view i le = Inl RangeError" if "length view < i + 4"
    using that by (simp add: getUint32_def)
  have app1: "scanSegments D view off = Inr None"
    if "off < length view \<and> getUint16 view off False = Inr 0xFFE1 \<and>
        getUint16 view (off + 2) False = Inr app1Length \<and>
        getUint32 view (off + 4) False = Inr signature \<and> signature \<noteq> 0x45786966 \<and>
        length view \<le> off + 2 + app1Length"
    using that scanSegments_other_app1 [of off view app1Length signature D]
      scanSegments_past_end [of view "off + 2 + app1Length" D] by simp
  from mime unread thrown nodate getDateTaken_cases [of D f] soi marker r8 r16 r32 app1
  show ?thesis by blast
qed

theorem extractor_never_fails_witness:
  "parseExif exampleParseDate (take 65536 exampleBeyondCutoffBytes) = Inl RangeError \<and>
   getDateTaken' exampleParseDate exampleBeyondCutoff = lastModified exampleBeyondCutoff"
proof -
  have c: "content exampleBeyondCutoff = Some exampleBeyondCutoffBytes"
    by (simp add: exampleBeyondCutoff_def)
  from extractor_never_fails [of exampleBeyondCutoff exampleParseDate exampleBeyondCutoffBytes
      RangeError] c parse_beyond_cutoff
  show ?thesis by blast
qed

end
